theory Spec2Isabelle
  imports
    Complex_Main
    "HOL-Library.Multiset"
    "HOL-Library.Extended_Nat"
    "HOL-Library.Log_Nat"
    "HOL-Library.Char_ord"
    "HOL-Library.List_Lexorder"
    "HOL-Library.Product_Lexorder"
begin

section \<open>HSC item analysis: the data pipeline of data-processor.js,
  chart-generator.js and pdf-generator.js\<close>

text \<open>
  Conventions of the embedding.
  \<^item> A JavaScript string is a \<^typ>\<open>string\<close>: the list of its code units, for code
    units 0..255. The order \<open><\<close> on strings is the lexicographic order on the
    character codes, which is how JavaScript compares strings.
  \<^item> \<open>Array.prototype.sort\<close> with a comparator is stable (ECMAScript 2019); it is
    modelled by the stable insertion sort \<open>js_sort\<close>, which reads only the sign of the
    comparator's result. For a comparator that orders its arguments consistently the
    result does not depend on the sorting algorithm; for any other comparator
    ECMAScript leaves the order to the implementation, and nothing is proved here.
  \<^item> An object is an association list of its own properties in creation order.
    \<open>Object.keys\<close>, \<open>Object.values\<close> and \<open>for ... in\<close> list the properties through
    \<open>own_entries\<close>: the array indices first, ascending, then the other keys in creation
    order. A list that is in listing order already stands for the same object, since
    \<open>own_entries\<close> leaves it as it is. Where a key may name a property inherited from
    \<open>Object.prototype\<close>, the model says what the code reads.
  \<^item> Numbers that are parsed from text are rounded as \<open>parseInt\<close> and
    \<open>parseFloat\<close> round them, to the nearest double (\<open>to_double\<close>, \<open>round_double\<close>);
    the arithmetic on marks is exact (\<open>number\<close>).
\<close>

subsection \<open>Array.prototype.sort\<close>

fun js_insert :: "('a \<Rightarrow> 'a \<Rightarrow> int) \<Rightarrow> 'a \<Rightarrow> 'a list \<Rightarrow> 'a list" where
  "js_insert cmp x [] = [x]"
| "js_insert cmp x (y # ys) =
     (if cmp x y > 0 then y # js_insert cmp x ys else x # y # ys)"

fun js_sort :: "('a \<Rightarrow> 'a \<Rightarrow> int) \<Rightarrow> 'a list \<Rightarrow> 'a list" where
  "js_sort cmp [] = []"
| "js_sort cmp (x # xs) = js_insert cmp x (js_sort cmp xs)"

subsection \<open>pdf-generator.js: createSubjectPDF and addTOCPages\<close>

text \<open>
  A page descriptor as the chart generator and \<open>generateTopBottomMetadata\<close> build it.
  \<open>ptype\<close> is the field \<open>type\<close> (\<open>'chart'\<close> or \<open>'topbottom'\<close>), \<open>subType\<close> is absent
  on most pages. \<open>year\<close> is a string: both producers take it from \<open>Object.keys\<close>.
\<close>

record page =
  subject :: string
  year :: string
  title :: string
  ptype :: string
  subType :: "string option"

record toc_entry =
  e_subject :: string
  e_year :: string
  e_title :: string
  pageNumber :: nat

text \<open>
  The document is the list of its pages. \<open>new jsPDF\<close> starts with one page, on which
  \<open>addTitlePage\<close> draws; \<open>pdf.addPage()\<close> appends one page; \<open>getNumberOfPages\<close> is the
  length. A content page carries the number that \<open>addFooter\<close> prints on it.
\<close>

datatype pdf_page =
  TitlePage string
| TocPage "toc_entry list"
| ContentPage page nat

definition entriesPerPage :: nat where
  "entriesPerPage = 20"

definition tocPageCount :: "nat \<Rightarrow> nat" where
  "tocPageCount n = nat \<lceil>real n / real entriesPerPage\<rceil>"

definition addTOCPages :: "pdf_page list \<Rightarrow> toc_entry list \<Rightarrow> pdf_page list \<times> toc_entry list" where
  "addTOCPages pdf entries =
     (let totalPages = tocPageCount (length entries);
          entries' = map (\<lambda>e. e\<lparr>pageNumber := pageNumber e + totalPages\<rparr>) entries
      in (pdf @ map (\<lambda>i. TocPage (take entriesPerPage (drop (i * entriesPerPage) entries')))
                    [0..<totalPages],
          entries'))"

fun add_content :: "pdf_page list \<Rightarrow> nat \<Rightarrow> page list \<Rightarrow> pdf_page list" where
  "add_content pdf pageNum [] = pdf"
| "add_content pdf pageNum (pageItem # pages) =
     add_content (pdf @ [ContentPage pageItem pageNum]) (pageNum + 1) pages"

definition createSubjectPDF :: "string \<Rightarrow> page list \<Rightarrow> pdf_page list \<times> toc_entry list" where
  "createSubjectPDF subj pages =
     (let pdf0 = [TitlePage subj];
          tocEntries = map (\<lambda>(pg, idx). \<lparr>e_subject = subject pg, e_year = year pg,
                                          e_title = title pg, pageNumber = idx + 2\<rparr>)
                           (zip pages [0..<length pages]);
          (pdf1, entries) = addTOCPages pdf0 tocEntries;
          pageNum = length pdf1 + 1
      in (add_content pdf1 pageNum pages, entries))"

subsection \<open>pdf-generator.js: sortPages\<close>

text \<open>\<open>String.prototype.startsWith\<close> and \<open>String.prototype.includes\<close>.\<close>

fun startsWith :: "string \<Rightarrow> string \<Rightarrow> bool" where
  "startsWith s [] = True"
| "startsWith [] (c # cs) = False"
| "startsWith (x # xs) (c # cs) = (x = c \<and> startsWith xs cs)"

fun includes_str :: "string \<Rightarrow> string \<Rightarrow> bool" where
  "includes_str [] sub = (sub = [])"
| "includes_str (x # xs) sub = (startsWith (x # xs) sub \<or> includes_str xs sub)"

text \<open>The template literal \<open>`${p.subject}|${p.year}`\<close>.\<close>

definition page_key :: "page \<Rightarrow> string" where
  "page_key p = subject p @ ''|'' @ year p"

text \<open>
  \<open>groups\<close> is a plain object used as a dictionary from keys to arrays. Every key
  contains the character \<open>|\<close>, so it names no property inherited from
  \<open>Object.prototype\<close> and is no array index: \<open>groups[k]\<close> reads an own property or
  \<open>undefined\<close>, and \<open>Object.keys\<close> lists the keys in creation order.
  \<open>group_push\<close> is the body of the \<open>forEach\<close>.
\<close>

fun group_push :: "(string \<times> page list) list \<Rightarrow> string \<Rightarrow> page \<Rightarrow> (string \<times> page list) list" where
  "group_push [] k p = [(k, [p])]"
| "group_push ((k', ps) # groups) k p =
     (if k' = k then (k', ps @ [p]) # groups else (k', ps) # group_push groups k p)"

definition build_groups :: "page list \<Rightarrow> (string \<times> page list) list" where
  "build_groups allPages = foldl (\<lambda>groups p. group_push groups (page_key p) p) [] allPages"

definition score :: "page \<Rightarrow> int" where
  "score p =
     (let t = title p in
      if ptype p = ''topbottom'' then 35
      else if subType p = Some ''performance-summary'' then 25
      else if includes_str t ''Summary'' then
        (if includes_str t ''School vs State'' then 60 else 40)
      else if includes_str t ''Breakdown'' then 50
      else if includes_str t ''School vs State'' then 20
      else 10)"

text \<open>
  \<open>Object.keys(groups).sort()\<close> is the default sort: ascending in the string order.
  The lookup \<open>groups[k]\<close> is made for keys of \<open>groups\<close> only.
\<close>

definition sortPages :: "page list \<Rightarrow> page list" where
  "sortPages allPages =
     (let groups = build_groups allPages;
          sortedKeys = sort (map fst groups)
      in concat (map (\<lambda>k. case map_of groups k of
                             None \<Rightarrow> []
                           | Some pages \<Rightarrow> js_sort (\<lambda>a b. score a - score b) pages)
                     sortedKeys))"

subsection \<open>data-processor.js: naturalSortKey and sortQuestionsNaturally\<close>

text \<open>
  \<open>String.prototype.trim\<close> removes white space and line terminators; among the code
  units below 256 these are TAB, LF, VT, FF, CR, SP and NBSP.
\<close>

definition is_space :: "char \<Rightarrow> bool" where
  "is_space c = (of_char c \<in> {9, 10, 11, 12, 13, 32, 160 :: nat})"

definition trim :: "string \<Rightarrow> string" where
  "trim s = rev (dropWhile is_space (rev (dropWhile is_space s)))"

text \<open>The regular-expression classes \<open>\d\<close> and \<open>[a-zA-Z]\<close>.\<close>

definition is_digit :: "char \<Rightarrow> bool" where
  "is_digit c = (48 \<le> (of_char c :: nat) \<and> (of_char c :: nat) \<le> 57)"

definition is_letter :: "char \<Rightarrow> bool" where
  "is_letter c = ((65 \<le> (of_char c :: nat) \<and> (of_char c :: nat) \<le> 90)
                \<or> (97 \<le> (of_char c :: nat) \<and> (of_char c :: nat) \<le> 122))"

text \<open>
  \<open>String.prototype.toLowerCase\<close> on code units below 256: \<open>A\<close>..\<open>Z\<close> and the
  Latin-1 capitals 192..222 (without the multiplication sign 215) move up by 32.
\<close>

definition lower_char :: "char \<Rightarrow> char" where
  "lower_char c =
     (let n = (of_char c :: nat) in
      if (65 \<le> n \<and> n \<le> 90) \<or> (192 \<le> n \<and> n \<le> 222 \<and> n \<noteq> 215)
      then char_of (n + 32) else c)"

definition toLowerCase :: "string \<Rightarrow> string" where
  "toLowerCase s = map lower_char s"

text \<open>The mathematical value of a string of decimal digits.\<close>

definition digits_value :: "string \<Rightarrow> nat" where
  "digits_value ds = foldl (\<lambda>n c. 10 * n + ((of_char c :: nat) - 48)) 0 ds"

text \<open>
  A JavaScript number is an IEEE double. \<open>to_double n\<close> is the number value of the
  natural number \<open>n\<close>: \<open>n\<close> itself below \<open>2^53\<close>, above that the nearest double
  (53 significant bits, ties to even), and \<open>Infinity\<close> once the rounded value reaches
  \<open>2^1024\<close>. The non-negative integral doubles and \<open>Infinity\<close> are the values of
  \<^typ>\<open>enat\<close>. (For more than 20 significant digits ECMAScript lets \<open>parseInt\<close>
  read the digits after the 20th as zeros; the model rounds the exact value.)
\<close>

definition to_double :: "nat \<Rightarrow> enat" where
  "to_double n =
     (if n < 2 ^ 53 then enat n
      else let e = floorlog 2 n - 53;
               q = n div 2 ^ e;
               r = n mod 2 ^ e;
               h = 2 ^ (e - 1);
               q' = (if r > h \<or> (r = h \<and> odd q) then q + 1 else q)
           in if q' * 2 ^ e \<ge> 2 ^ 1024 then \<infinity> else enat (q' * 2 ^ e))"

text \<open>\<open>parseInt\<close> on a non-empty string of decimal digits.\<close>

definition parseInt_digits :: "string \<Rightarrow> enat" where
  "parseInt_digits ds = to_double (digits_value ds)"

text \<open>
  \<open>naturalSortKey\<close>: the pattern \<open>/^(\d+)([a-zA-Z]*)$/\<close> matches the trimmed string
  exactly when its leading digits are not empty and the rest consists of letters.
  The argument is the string \<open>String(s)\<close>.
\<close>

definition naturalSortKey :: "string \<Rightarrow> enat \<times> string" where
  "naturalSortKey s0 =
     (let s = trim s0;
          ds = takeWhile is_digit s;
          ls = dropWhile is_digit s
      in if ds \<noteq> [] \<and> list_all is_letter ls
         then (parseInt_digits ds, toLowerCase ls)
         else (\<infinity>, s))"

text \<open>
  The sign of the difference \<open>x - y\<close> of two numbers that are non-negative integers or
  \<open>Infinity\<close>. \<open>Infinity - Infinity\<close> is \<open>NaN\<close>, which a sort comparator's caller reads
  as 0.
\<close>

definition diff_sign :: "enat \<Rightarrow> enat \<Rightarrow> int" where
  "diff_sign x y = (if x < y then - 1 else if y < x then 1 else 0)"

text \<open>
  The comparator of \<open>sortQuestionsNaturally\<close>; \<open>column\<close> gives the string form of
  \<open>a[column]\<close>.
\<close>

definition natural_cmp :: "('a \<Rightarrow> string) \<Rightarrow> 'a \<Rightarrow> 'a \<Rightarrow> int" where
  "natural_cmp column a b =
     (let ka = naturalSortKey (column a);
          kb = naturalSortKey (column b)
      in if fst ka \<noteq> fst kb then diff_sign (fst ka) (fst kb)
         else if snd ka < snd kb then - 1
         else if snd ka > snd kb then 1
         else 0)"

definition sortQuestionsNaturally :: "('a \<Rightarrow> string) \<Rightarrow> 'a list \<Rightarrow> 'a list" where
  "sortQuestionsNaturally column data = js_sort (natural_cmp column) data"

text \<open>
  The sort key as section 4.2.1 of the specification words it, for comparison with
  \<open>naturalSortKey\<close>: the numeric part of a matching label is the integer value of its
  digits.
\<close>

definition spec_naturalSortKey :: "string \<Rightarrow> enat \<times> string" where
  "spec_naturalSortKey s0 =
     (let s = trim s0;
          ds = takeWhile is_digit s;
          ls = dropWhile is_digit s
      in if ds \<noteq> [] \<and> list_all is_letter ls
         then (enat (digits_value ds), toLowerCase ls)
         else (\<infinity>, s))"

text \<open>
  The same function on a store of arrays, to follow what it mutates. A store is the
  list of the allocated arrays, a reference is an index into it (below its length).
  \<open>[...data]\<close> allocates a copy, \<open>sort\<close> sorts the array it is called on in place and
  returns its reference.
\<close>

type_synonym 'a store = "'a list list"

definition array_spread :: "'a store \<Rightarrow> nat \<Rightarrow> 'a store \<times> nat" where
  "array_spread st r = (st @ [st ! r], length st)"

definition array_sort :: "('a \<Rightarrow> 'a \<Rightarrow> int) \<Rightarrow> 'a store \<Rightarrow> nat \<Rightarrow> 'a store \<times> nat" where
  "array_sort cmp st r = (st[r := js_sort cmp (st ! r)], r)"

definition sortQuestionsNaturally_st :: "('a \<Rightarrow> string) \<Rightarrow> 'a store \<Rightarrow> nat \<Rightarrow> 'a store \<times> nat" where
  "sortQuestionsNaturally_st column st data =
     (let (st1, c) = array_spread st data
      in array_sort (natural_cmp column) st1 c)"

subsection \<open>Raw cell values\<close>

text \<open>
  A number read from a cell is kept in the decimal form that \<open>Number::toString\<close>
  works on: \<open>NumDec m e\<close> is \<open>m * 10^e\<close>. Every finite double is such a value (its
  shortest decimal that reads back as the same double), and \<open>String(x)\<close> prints
  exactly that decimal. Minus zero is not distinguished from zero; both print as
  \<open>0\<close> and both are falsy.
\<close>

datatype jsnum = NumNaN | NumPosInf | NumNegInf | NumDec int int

datatype jsval = JUndefined | JNull | JBool bool | JNum jsnum | JStr string

definition digit_char :: "nat \<Rightarrow> char" where
  "digit_char d = char_of (48 + d)"

fun nat_digits :: "nat \<Rightarrow> string" where
  "nat_digits n = (if n < 10 then [digit_char n] else nat_digits (n div 10) @ [digit_char (n mod 10)])"

declare nat_digits.simps [simp del]

text \<open>
  \<open>Number::toString\<close> (radix 10) of ECMA-262: with \<open>s\<close> the digits without trailing
  zeros, \<open>k\<close> their number and \<open>n\<close> the position of the decimal point, positional
  notation is used for \<open>-5 \<le> n \<le> 21\<close> and exponent notation otherwise.
\<close>

definition num_to_string :: "jsnum \<Rightarrow> string" where
  "num_to_string x =
     (case x of
        NumNaN \<Rightarrow> ''NaN''
      | NumPosInf \<Rightarrow> ''Infinity''
      | NumNegInf \<Rightarrow> ''-Infinity''
      | NumDec m e \<Rightarrow>
          if m = 0 then ''0''
          else
            let ds = nat_digits (nat \<bar>m\<bar>);
                s = rev (dropWhile (\<lambda>c. c = CHR ''0'') (rev ds));
                k = int (length s);
                n = int (length ds) + e;
                body =
                  (if - 5 \<le> n \<and> n \<le> 21 then
                     (if n \<ge> k then s @ replicate (nat (n - k)) CHR ''0''
                      else if n > 0 then take (nat n) s @ ''.'' @ drop (nat n) s
                      else ''0.'' @ replicate (nat (- n)) CHR ''0'' @ s)
                   else
                     (let ex = (if n - 1 < 0 then ''-'' else ''+'') @ nat_digits (nat \<bar>n - 1\<bar>)
                      in if k = 1 then s @ ''e'' @ ex
                         else take 1 s @ ''.'' @ drop 1 s @ ''e'' @ ex))
            in (if m < 0 then ''-'' else []) @ body)"

text \<open>\<open>String(v)\<close> and the truthiness of a value.\<close>

definition ToString :: "jsval \<Rightarrow> string" where
  "ToString v =
     (case v of
        JUndefined \<Rightarrow> ''undefined''
      | JNull \<Rightarrow> ''null''
      | JBool b \<Rightarrow> (if b then ''true'' else ''false'')
      | JNum x \<Rightarrow> num_to_string x
      | JStr s \<Rightarrow> s)"

definition truthy :: "jsval \<Rightarrow> bool" where
  "truthy v =
     (case v of
        JUndefined \<Rightarrow> False
      | JNull \<Rightarrow> False
      | JBool b \<Rightarrow> b
      | JNum x \<Rightarrow> (case x of NumNaN \<Rightarrow> False | NumDec m e \<Rightarrow> m \<noteq> 0 | _ \<Rightarrow> True)
      | JStr s \<Rightarrow> s \<noteq> [])"

text \<open>
  A row object is the list of its own properties, with distinct keys, in creation
  order: for a row that \<open>sheet_to_json\<close> builds, the columns from left to right.
  \<open>row[k]\<close> is \<open>undefined\<close> for a missing key (the keys read below name no inherited
  property).
\<close>

type_synonym row = "(string \<times> jsval) list"

definition get_prop :: "row \<Rightarrow> string \<Rightarrow> jsval" where
  "get_prop r k = (case map_of r k of None \<Rightarrow> JUndefined | Some v \<Rightarrow> v)"

text \<open>
  The order in which \<open>Object.keys\<close>, \<open>Object.values\<close> and \<open>for ... in\<close> list the own
  properties of an object: the array indices first, in ascending numeric order, then
  the other keys in creation order. An array index is the canonical decimal form of an
  integer up to \<open>2^32 - 2\<close>. A list that is in this order already is left as it is.
\<close>

definition is_array_index :: "string \<Rightarrow> bool" where
  "is_array_index k =
     (k \<noteq> [] \<and> list_all is_digit k \<and> (k = ''0'' \<or> hd k \<noteq> CHR ''0'')
      \<and> digits_value k \<le> 4294967294)"

definition own_entries :: "(string \<times> 'v) list \<Rightarrow> (string \<times> 'v) list" where
  "own_entries obj =
     sort_key (\<lambda>kv. digits_value (fst kv)) (filter (\<lambda>kv. is_array_index (fst kv)) obj)
     @ filter (\<lambda>kv. \<not> is_array_index (fst kv)) obj"

subsection \<open>data-processor.js: loadAndParse, header detection\<close>

text \<open>The cell conversion inside \<open>rowSlice.map\<close>.\<close>

definition header_cell :: "jsval \<Rightarrow> string" where
  "header_cell c =
     (if c = JNull \<or> c = JUndefined then []
      else let str = ToString c
           in if length str > 1000 then [] else trim str)"

definition row_qualifies :: "jsval list \<Rightarrow> bool" where
  "row_qualifies cells =
     (let row = map header_cell (take 12 cells);
          hasSubject = (''Subject'' \<in> set row);
          hasQuestion = list_ex (\<lambda>c. includes_str c ''Question (Item)'') row
      in hasSubject \<and> hasQuestion)"

text \<open>
  The loop \<open>for (let i = 0; i < Math.min(aoa.length, 20); i++)\<close> with its \<open>break\<close>:
  \<open>scan_header i rows\<close> runs it from index \<open>i\<close> on the remaining rows.
\<close>

fun scan_header :: "nat \<Rightarrow> jsval list list \<Rightarrow> nat option" where
  "scan_header i [] = None"
| "scan_header i (r # rs) =
     (if i < 20 then (if row_qualifies r then Some i else scan_header (i + 1) rs) else None)"

text \<open>The pair \<open>(headerRowIndex, foundHeader)\<close> after the loop.\<close>

definition find_header :: "jsval list list \<Rightarrow> nat \<times> bool" where
  "find_header aoa = (case scan_header 0 aoa of None \<Rightarrow> (0, False) | Some i \<Rightarrow> (i, True))"

subsection \<open>data-processor.js: loadAndParse, header normalization\<close>

text \<open>
  The names of the properties that every plain object inherits from
  \<open>Object.prototype\<close>. For such a name \<open>k\<close> the read \<open>obj[k]\<close> of an object without an
  own property \<open>k\<close> gives a function (the prototype object itself for \<open>__proto__\<close>),
  which is truthy.
\<close>

definition object_prototype_keys :: "string list" where
  "object_prototype_keys =
     [''constructor'', ''__defineGetter__'', ''__defineSetter__'', ''hasOwnProperty'',
      ''__lookupGetter__'', ''__lookupSetter__'', ''isPrototypeOf'', ''propertyIsEnumerable'',
      ''toString'', ''valueOf'', ''__proto__'', ''toLocaleString'']"

definition normalize_key :: "string \<Rightarrow> string" where
  "normalize_key key =
     (let normalizedKey = trim key
      in if includes_str normalizedKey ''Content Area'' \<or> includes_str normalizedKey ''(QPC)''
            \<or> normalizedKey = ''QPC''
         then ''Question Per Content''
         else if includes_str normalizedKey ''Learning Outcome''
            \<or> includes_str normalizedKey ''(QPO)'' \<or> normalizedKey = ''QPO''
         then ''Question Per Outcome''
         else normalizedKey)"

text \<open>
  \<open>!newRow[k]\<close>: the own property if there is one, else the inherited one.
\<close>

definition newRow_unset :: "row \<Rightarrow> string \<Rightarrow> bool" where
  "newRow_unset newRow k =
     (case map_of newRow k of
        Some v \<Rightarrow> \<not> truthy v
      | None \<Rightarrow> k \<notin> set object_prototype_keys)"

text \<open>
  \<open>newRow[k] = v\<close>: an existing property keeps its place and takes the value; a new
  property is created last. \<open>newRow\<close> is kept in the order in which its properties are
  listed, so a new array index goes to its place among the array indices.
\<close>

definition set_prop :: "row \<Rightarrow> string \<Rightarrow> jsval \<Rightarrow> row" where
  "set_prop r k v =
     (if k \<in> fst ` set r then map (\<lambda>kv. if fst kv = k then (k, v) else kv) r
      else own_entries (r @ [(k, v)]))"

definition normalize_step :: "row \<Rightarrow> string \<times> jsval \<Rightarrow> row" where
  "normalize_step newRow kv =
     (let normalizedKey = normalize_key (fst kv)
      in if newRow_unset newRow normalizedKey then set_prop newRow normalizedKey (snd kv)
         else newRow)"

text \<open>The loop \<open>for (let key in row)\<close>, from the empty object \<open>newRow\<close>.\<close>

definition normalize_row :: "row \<Rightarrow> row" where
  "normalize_row r = foldl normalize_step [] (own_entries r)"

subsection \<open>data-processor.js: reconstructBase64\<close>

definition MAX_SAFE_SIZE :: nat where
  "MAX_SAFE_SIZE = 50 * 1024 * 1024"

definition MAX_CHUNKS :: nat where
  "MAX_CHUNKS = 200"

definition MAX_CHUNK_SIZE :: nat where
  "MAX_CHUNK_SIZE = 500 * 1024"

text \<open>The test \<open>/^HSC_BASE64_\d+$/\<close> and the number \<open>parseInt(k.replace('HSC_BASE64_', '')) || 0\<close>.\<close>

definition is_b64_key :: "string \<Rightarrow> bool" where
  "is_b64_key k =
     (startsWith k ''HSC_BASE64_'' \<and> drop 11 k \<noteq> [] \<and> list_all is_digit (drop 11 k))"

definition b64_num :: "string \<Rightarrow> enat" where
  "b64_num k = parseInt_digits (drop 11 k)"

definition b64_cmp :: "string \<Rightarrow> string \<Rightarrow> int" where
  "b64_cmp a b = diff_sign (b64_num a) (b64_num b)"

text \<open>
  The first pass over \<open>keysToProcess\<close>: \<open>continue\<close> on an oversized chunk, \<open>break\<close>
  when the total would pass the limit. The result is \<open>validKeys\<close>.
\<close>

fun first_pass :: "nat \<Rightarrow> nat \<Rightarrow> row \<Rightarrow> nat \<Rightarrow> string list \<Rightarrow> string list" where
  "first_pass maxSafe maxChunk r totalLength [] = []"
| "first_pass maxSafe maxChunk r totalLength (k # ks) =
     (let val = get_prop r k in
      if truthy val then
        (let chunkLength = length (ToString val) in
         if chunkLength > maxChunk then first_pass maxSafe maxChunk r totalLength ks
         else if totalLength + chunkLength > maxSafe then []
         else k # first_pass maxSafe maxChunk r (totalLength + chunkLength) ks)
      else first_pass maxSafe maxChunk r totalLength ks)"

text \<open>The second pass: \<open>String(row[k] || '').trim()\<close>, kept when not empty.\<close>

definition second_pass :: "row \<Rightarrow> string list \<Rightarrow> string list" where
  "second_pass r validKeys =
     filter (\<lambda>val. val \<noteq> [])
       (map (\<lambda>k. trim (ToString (if truthy (get_prop r k) then get_prop r k else JStr []))) validKeys)"

definition add_image_prefix :: "string \<Rightarrow> string" where
  "add_image_prefix fullB64 =
     (if fullB64 \<noteq> [] \<and> \<not> startsWith fullB64 ''data:image''
      then ''data:image/png;base64,'' @ fullB64 else fullB64)"

text \<open>
  \<open>reconstruct\<close> is the body of \<open>reconstructBase64\<close> with the three limits as
  arguments; \<open>None\<close> is the result \<open>null\<close>. No statement of the \<open>try\<close> block throws.
\<close>

definition reconstruct :: "nat \<Rightarrow> nat \<Rightarrow> nat \<Rightarrow> row option \<Rightarrow> string option" where
  "reconstruct maxSafe maxChunks maxChunk row =
     (case row of
        None \<Rightarrow> None
      | Some r \<Rightarrow>
          let b64Keys = js_sort b64_cmp (filter is_b64_key (map fst (own_entries r))) in
          if b64Keys = [] then None
          else
            let keysToProcess = take maxChunks b64Keys;
                validKeys = first_pass maxSafe maxChunk r 0 keysToProcess in
            if validKeys = [] then None
            else
              let b64Parts = second_pass r validKeys in
              if b64Parts = [] then None
              else
                let fullB64 = add_image_prefix (concat b64Parts)
                in if fullB64 = [] then None else Some fullB64)"

definition reconstructBase64 :: "row option \<Rightarrow> string option" where
  "reconstructBase64 row = reconstruct MAX_SAFE_SIZE MAX_CHUNKS MAX_CHUNK_SIZE row"

text \<open>
  The reconstruction as section 4.5 of the specification words it, for comparison with
  \<open>reconstructBase64\<close>: the chunks that survive the three limits are concatenated as
  they are.
\<close>

definition spec_reconstructBase64 :: "row option \<Rightarrow> string option" where
  "spec_reconstructBase64 row =
     (case row of
        None \<Rightarrow> None
      | Some r \<Rightarrow>
          let keys = take MAX_CHUNKS
                       (js_sort b64_cmp (filter is_b64_key (map fst (own_entries r))));
              surviving = first_pass MAX_SAFE_SIZE MAX_CHUNK_SIZE r 0 keys
          in if surviving = [] then None
             else let joined = concat (map (\<lambda>k. ToString (get_prop r k)) surviving)
                  in Some (if startsWith joined ''data:image'' then joined
                           else ''data:image/png;base64,'' @ joined))"

subsection \<open>Numbers of the normalized records\<close>

text \<open>
  The marks of a record are numbers that the code adds, subtracts, multiplies and
  divides. They are modelled as the real numbers extended by the two infinities and
  \<open>NaN\<close>, with the arithmetic of IEEE 754 on these; the rounding of finite results
  and the sign of zero are not modelled.
\<close>

datatype number = Finite real | Infinity | NegInfinity | NaN

fun js_neg :: "number \<Rightarrow> number" where
  "js_neg (Finite x) = Finite (- x)"
| "js_neg Infinity = NegInfinity"
| "js_neg NegInfinity = Infinity"
| "js_neg NaN = NaN"

fun js_add :: "number \<Rightarrow> number \<Rightarrow> number" where
  "js_add NaN y = NaN"
| "js_add x NaN = NaN"
| "js_add (Finite x) (Finite y) = Finite (x + y)"
| "js_add (Finite x) y = y"
| "js_add x (Finite y) = x"
| "js_add Infinity Infinity = Infinity"
| "js_add NegInfinity NegInfinity = NegInfinity"
| "js_add Infinity NegInfinity = NaN"
| "js_add NegInfinity Infinity = NaN"

definition js_sub :: "number \<Rightarrow> number \<Rightarrow> number" where
  "js_sub x y = js_add x (js_neg y)"

text \<open>The sign of a number: 1, 0 or -1, and 0 for \<open>NaN\<close>.\<close>

fun num_sign :: "number \<Rightarrow> int" where
  "num_sign (Finite x) = (if x > 0 then 1 else if x < 0 then - 1 else 0)"
| "num_sign Infinity = 1"
| "num_sign NegInfinity = - 1"
| "num_sign NaN = 0"

definition signed_inf :: "int \<Rightarrow> number" where
  "signed_inf sg = (if sg > 0 then Infinity else if sg < 0 then NegInfinity else NaN)"

fun js_mul :: "number \<Rightarrow> number \<Rightarrow> number" where
  "js_mul NaN y = NaN"
| "js_mul x NaN = NaN"
| "js_mul (Finite x) (Finite y) = Finite (x * y)"
| "js_mul x y = signed_inf (num_sign x * num_sign y)"

fun js_div :: "number \<Rightarrow> number \<Rightarrow> number" where
  "js_div NaN y = NaN"
| "js_div x NaN = NaN"
| "js_div (Finite x) (Finite y) =
     (if y = 0 then signed_inf (num_sign (Finite x)) else Finite (x / y))"
| "js_div (Finite x) y = Finite 0"
| "js_div x (Finite y) = signed_inf (num_sign x * (if y < 0 then - 1 else 1))"
| "js_div x y = NaN"

text \<open>
  The comparison \<open>x >= y\<close> of two numbers, and a key that descends as the number
  ascends; the key is used to state that a list is sorted from the largest number down.
\<close>

fun num_ge :: "number \<Rightarrow> number \<Rightarrow> bool" where
  "num_ge NaN y = False"
| "num_ge x NaN = False"
| "num_ge Infinity y = True"
| "num_ge x NegInfinity = True"
| "num_ge (Finite x) (Finite y) = (x \<ge> y)"
| "num_ge x y = False"

definition desc_key :: "number \<Rightarrow> int \<times> real" where
  "desc_key x =
     (case x of Infinity \<Rightarrow> (- 1, 0) | Finite v \<Rightarrow> (0, - v) | NegInfinity \<Rightarrow> (1, 0)
      | NaN \<Rightarrow> (2, 0))"

subsection \<open>data-processor.js: processData\<close>

text \<open>
  \<open>parseInt(string)\<close> without a radix: leading white space is skipped, a sign is read,
  the prefix \<open>0x\<close> or \<open>0X\<close> selects radix 16, and the longest run of digits of the
  radix is the value; without a digit the result is \<open>NaN\<close>, here \<open>None\<close>. The result
  is the pair of the sign (\<open>True\<close> for minus) and the magnitude.
\<close>

definition is_hex_digit :: "char \<Rightarrow> bool" where
  "is_hex_digit c =
     (is_digit c \<or> (65 \<le> (of_char c :: nat) \<and> (of_char c :: nat) \<le> 70)
                \<or> (97 \<le> (of_char c :: nat) \<and> (of_char c :: nat) \<le> 102))"

definition hex_digit_value :: "char \<Rightarrow> nat" where
  "hex_digit_value c =
     (let n = (of_char c :: nat)
      in if n \<le> 57 then n - 48 else if n \<le> 70 then n - 55 else n - 87)"

definition hex_value :: "string \<Rightarrow> nat" where
  "hex_value ds = foldl (\<lambda>n c. 16 * n + hex_digit_value c) 0 ds"

definition parseInt_str :: "string \<Rightarrow> (bool \<times> enat) option" where
  "parseInt_str inputString =
     (let s = dropWhile is_space inputString;
          neg = (s \<noteq> [] \<and> hd s = CHR ''-'');
          s1 = (if s \<noteq> [] \<and> (hd s = CHR ''+'' \<or> hd s = CHR ''-'') then tl s else s);
          hex = (startsWith s1 ''0x'' \<or> startsWith s1 ''0X'');
          s2 = (if hex then drop 2 s1 else s1);
          z = takeWhile (if hex then is_hex_digit else is_digit) s2
      in if z = [] then None
         else Some (neg, to_double (if hex then hex_value z else digits_value z)))"

text \<open>
  The number value of a non-negative rational \<open>p / q\<close> (with \<open>0 < q\<close>): the nearest
  double, ties to the even significand. \<open>binade p q\<close> is the exponent \<open>b\<close> with
  \<open>2^b \<le> p / q < 2^(b+1)\<close>; the last place of a double in this range is worth
  \<open>2^(b - 52)\<close>, and \<open>2^(- 1074)\<close> below \<open>2^(- 1022)\<close>, where the doubles are
  subnormal. A value that rounds to \<open>2^1024\<close> or more is \<open>Infinity\<close>, one that rounds
  to nothing is 0.
\<close>

definition round_half_even :: "nat \<Rightarrow> nat \<Rightarrow> nat" where
  "round_half_even p q =
     (let n = p div q; r = p mod q
      in if 2 * r > q \<or> (2 * r = q \<and> odd n) then n + 1 else n)"

definition binade :: "nat \<Rightarrow> nat \<Rightarrow> int" where
  "binade p q =
     (if q \<le> p then int (floorlog 2 (p div q)) - 1
      else - int (floorlog 2 ((q + p - 1) div p - 1)))"

definition round_double :: "nat \<Rightarrow> nat \<Rightarrow> number" where
  "round_double p q =
     (if p = 0 then Finite 0
      else
        let e = max (binade p q) (- 1022) - 52
        in if e \<ge> 0 then
             (let n = round_half_even p (q * 2 ^ nat e)
              in if n * 2 ^ nat e \<ge> 2 ^ 1024 then Infinity else Finite (real (n * 2 ^ nat e)))
           else
             (let n = round_half_even (p * 2 ^ nat (- e)) q
              in Finite (real n / 2 ^ nat (- e))))"

text \<open>
  \<open>parseFloat(string)\<close>: leading white space is skipped and the longest prefix that
  is a decimal literal (sign, \<open>Infinity\<close> or digits with an optional fraction and an
  optional exponent) is read; without such a prefix the result is \<open>NaN\<close>. The
  literal with the digits \<open>ip\<close>, the fraction digits \<open>fp\<close> and the exponent \<open>x\<close>
  denotes the integer of the digits \<open>ip @ fp\<close> times \<open>10^(x - length fp)\<close>, and the
  result is the number value of that. (For more than 20 significant digits ECMAScript
  lets an implementation read the digits after the 20th as zeros; the model rounds
  the exact value.)
\<close>

definition parseFloat_str :: "string \<Rightarrow> number" where
  "parseFloat_str inputString =
     (let s = dropWhile is_space inputString;
          neg = (s \<noteq> [] \<and> hd s = CHR ''-'');
          s1 = (if s \<noteq> [] \<and> (hd s = CHR ''+'' \<or> hd s = CHR ''-'') then tl s else s)
      in if startsWith s1 ''Infinity'' then (if neg then NegInfinity else Infinity)
         else
           let ip = takeWhile is_digit s1;
               r1 = dropWhile is_digit s1;
               dot = (r1 \<noteq> [] \<and> hd r1 = CHR ''.'');
               fp = (if dot then takeWhile is_digit (tl r1) else []);
               r2 = (if dot then dropWhile is_digit (tl r1) else r1)
           in if ip = [] \<and> fp = [] then NaN
              else
                let hasE = (r2 \<noteq> [] \<and> (hd r2 = CHR ''e'' \<or> hd r2 = CHR ''E''));
                    r3 = (if hasE then tl r2 else []);
                    eneg = (r3 \<noteq> [] \<and> hd r3 = CHR ''-'');
                    r4 = (if r3 \<noteq> [] \<and> (hd r3 = CHR ''+'' \<or> hd r3 = CHR ''-'')
                          then tl r3 else r3);
                    ed = takeWhile is_digit r4;
                    x = (if eneg then - int (digits_value ed) else int (digits_value ed))
                          - int (length fp);
                    m = digits_value (ip @ fp);
                    v = (if x \<ge> 0 then round_double (m * 10 ^ nat x) 1
                         else round_double m (10 ^ nat (- x)))
                in if neg then js_neg v else v)"

text \<open>
  The normalized record that \<open>processData\<close> builds: the nine coerced fields and, in
  \<open>rest\<close>, the raw row whose other properties the spread \<open>...row\<close> copies. \<open>Year\<close> is
  \<open>parseInt(...) || String(...)\<close>: a non-zero number (sign and magnitude) or a string.
\<close>

datatype year_val = YearNum bool enat | YearStr string

record norm_row =
  Subject :: string
  Year :: year_val
  Question :: string
  MC_ER :: string
  QPC :: string
  QPO :: string
  SchoolMean :: number
  StateMean :: number
  MaxMark :: number
  rest :: row

text \<open>The predicate of \<open>rawData.filter\<close>.\<close>

definition row_valid :: "row \<Rightarrow> bool" where
  "row_valid r =
     (let subject = get_prop r ''Subject'';
          year = get_prop r ''Year'';
          q = get_prop r ''Question (Item)''
      in if startsWith (toLowerCase (trim (ToString q))) ''question'' then False
         else if \<not> truthy subject then False
         else if \<not> truthy year then False
         else if \<not> truthy q then False
         else True)"

text \<open>\<open>v || ''\<close>, \<open>x || 0\<close> and the function of \<open>cleanData.map\<close>.\<close>

definition or_empty :: "jsval \<Rightarrow> jsval" where
  "or_empty v = (if truthy v then v else JStr [])"

definition or_zero :: "number \<Rightarrow> number" where
  "or_zero x = (if x = NaN \<or> x = Finite 0 then Finite 0 else x)"

definition coerce_year :: "jsval \<Rightarrow> year_val" where
  "coerce_year v =
     (case parseInt_str (ToString v) of
        None \<Rightarrow> YearStr (ToString v)
      | Some (neg, m) \<Rightarrow> if m = 0 then YearStr (ToString v) else YearNum neg m)"

definition coerce_row :: "row \<Rightarrow> norm_row" where
  "coerce_row r =
     \<lparr> Subject = trim (ToString (get_prop r ''Subject'')),
       Year = coerce_year (get_prop r ''Year''),
       Question = ToString (get_prop r ''Question (Item)''),
       MC_ER = trim (ToString (or_empty (get_prop r ''MC/ER''))),
       QPC = trim (ToString (or_empty (get_prop r ''Question Per Content''))),
       QPO = trim (ToString (or_empty (get_prop r ''Question Per Outcome''))),
       SchoolMean = or_zero (parseFloat_str (ToString (get_prop r ''School Mean (Item)''))),
       StateMean = or_zero (parseFloat_str (ToString (get_prop r ''State Mean (Item)''))),
       MaxMark = or_zero (parseFloat_str (ToString (get_prop r ''Max Mark (Item)''))),
       rest = r \<rparr>"

text \<open>
  The result of \<open>processData\<close>: the list \<open>raw\<close> of the normalized records and the two
  counts of \<open>stats\<close>. The field \<open>grouped\<close> distributes the records of \<open>raw\<close> by
  subject and year and the sets \<open>subjects\<close> and \<open>years\<close> collect their keys; they are
  not part of the model.
\<close>

record processed =
  raw :: "norm_row list"
  totalRows :: nat
  validRows :: nat

definition processData :: "row list \<Rightarrow> processed" where
  "processData rawData =
     (let cleanData = filter row_valid rawData;
          cleanData = map coerce_row cleanData
      in \<lparr> raw = cleanData, totalRows = length rawData, validRows = length cleanData \<rparr>)"

subsection \<open>pdf-generator.js: generateTopBottomMetadata\<close>

text \<open>A record with its success rate, \<open>{...r, successRate: ...}\<close>.\<close>

record rated_row =
  base :: norm_row
  successRate :: number

definition with_rate :: "norm_row \<Rightarrow> rated_row" where
  "with_rate r =
     \<lparr> base = r, successRate = js_mul (js_div (SchoolMean r) (MaxMark r)) (Finite 100) \<rparr>"

text \<open>The comparator \<open>(a, b) => b['School Mean (Item)'] - a['School Mean (Item)']\<close>.\<close>

definition mean_cmp :: "rated_row \<Rightarrow> rated_row \<Rightarrow> int" where
  "mean_cmp a b = num_sign (js_sub (SchoolMean (base b)) (SchoolMean (base a)))"

definition withRate :: "norm_row list \<Rightarrow> rated_row list" where
  "withRate rows = js_sort mean_cmp (map with_rate rows)"

text \<open>\<open>slice(0, 5)\<close> and \<open>slice(-5).reverse()\<close>.\<close>

definition top5 :: "norm_row list \<Rightarrow> rated_row list" where
  "top5 rows = take 5 (withRate rows)"

definition bottom5 :: "norm_row list \<Rightarrow> rated_row list" where
  "bottom5 rows = rev (drop (length (withRate rows) - 5) (withRate rows))"

record tb_page = page +
  tb_data :: rated_row
  category :: string
  color :: string

definition top_page :: "string \<Rightarrow> string \<Rightarrow> rated_row \<Rightarrow> tb_page" where
  "top_page subj yr r =
     \<lparr> subject = subj, year = yr, title = subj @ '' - '' @ yr @ '' - Best Performing Questions'',
       ptype = ''topbottom'', subType = None, tb_data = r, category = ''Top 5'', color = ''green'' \<rparr>"

definition bottom_page :: "string \<Rightarrow> string \<Rightarrow> rated_row \<Rightarrow> tb_page" where
  "bottom_page subj yr r =
     \<lparr> subject = subj, year = yr,
       title = subj @ '' - '' @ yr @ '' - Questions Needing Additional Support'',
       ptype = ''topbottom'', subType = None, tb_data = r, category = ''Bottom 5'', color = ''red'' \<rparr>"

text \<open>The body of the inner loop, for the rows of one subject and year.\<close>

definition group_pages :: "string \<Rightarrow> string \<Rightarrow> norm_row list \<Rightarrow> tb_page list" where
  "group_pages subj yr rows =
     map (top_page subj yr) (top5 rows) @ map (bottom_page subj yr) (bottom5 rows)"

text \<open>
  \<open>groupedData\<close> is given by its subjects in the order of \<open>Object.keys\<close>, each with
  its years in that order.
\<close>

definition generateTopBottomMetadata ::
    "(string \<times> (string \<times> norm_row list) list) list \<Rightarrow> tb_page list" where
  "generateTopBottomMetadata groupedData =
     concat (map (\<lambda>(subj, years).
               concat (map (\<lambda>(yr, rows). group_pages subj yr rows) years)) groupedData)"

subsection \<open>chart-generator.js: aggregateData\<close>

record bucket =
  b_max :: number
  schoolSum :: number
  stateSum :: number
  b_count :: nat
  b_label :: string

text \<open>
  One step of \<open>rows.forEach\<close>. \<open>tag\<close> gives the value of \<open>row[groupCol]\<close>, a string in
  a normalized record. \<open>groups\<close> is a plain object: for a key that names a property
  inherited from \<open>Object.prototype\<close> the read \<open>groups[key]\<close> gives that inherited
  function, which is truthy, so no bucket is created and the three \<open>+=\<close> write to
  properties of that function; \<open>groups\<close> stays as it is.
\<close>

fun bucket_add :: "(string \<times> bucket) list \<Rightarrow> string \<Rightarrow> norm_row \<Rightarrow> (string \<times> bucket) list" where
  "bucket_add [] key r =
     [(key, \<lparr> b_max = js_add (Finite 0) (MaxMark r),
              schoolSum = js_add (Finite 0) (SchoolMean r),
              stateSum = js_add (Finite 0) (StateMean r),
              b_count = 0 + 1, b_label = key \<rparr>)]"
| "bucket_add ((k, g) # groups) key r =
     (if k = key
      then (k, g\<lparr> b_max := js_add (b_max g) (MaxMark r),
                  schoolSum := js_add (schoolSum g) (SchoolMean r),
                  stateSum := js_add (stateSum g) (StateMean r),
                  b_count := b_count g + 1 \<rparr>) # groups
      else (k, g) # bucket_add groups key r)"

definition agg_step :: "(norm_row \<Rightarrow> string) \<Rightarrow> (string \<times> bucket) list \<Rightarrow> norm_row \<Rightarrow> (string \<times> bucket) list" where
  "agg_step tag groups r =
     (let key = trim (tag r)
      in if key = [] then groups
         else if key \<in> set object_prototype_keys then groups
         else bucket_add groups key r)"

text \<open>
  \<open>Object.values\<close> lists the values of the own properties with the array indices
  first, in ascending numeric order, and then the other keys in creation order.
\<close>

definition object_values :: "(string \<times> 'v) list \<Rightarrow> 'v list" where
  "object_values obj = map snd (own_entries obj)"

record agg_row =
  a_tag :: string
  a_MaxMark :: number
  a_SchoolMean :: number
  a_StateMean :: number

definition finalize :: "bucket \<Rightarrow> agg_row" where
  "finalize g =
     \<lparr> a_tag = b_label g, a_MaxMark = b_max g,
       a_SchoolMean = js_div (schoolSum g) (Finite (real (b_count g))),
       a_StateMean = js_div (stateSum g) (Finite (real (b_count g))) \<rparr>"

definition aggregateData :: "(norm_row \<Rightarrow> string) \<Rightarrow> norm_row list \<Rightarrow> agg_row list" where
  "aggregateData tag rows =
     (let groups = foldl (agg_step tag) [] rows;
          result = map finalize (object_values groups)
      in sortQuestionsNaturally a_tag result)"

section \<open>Verification\<close>

subsection \<open>Sorting with a comparator that compares keys\<close>

lemma js_insert_insort_key:
  fixes f :: "'a \<Rightarrow> 'k::linorder"
  assumes "\<And>a b. (cmp a b > 0) = (f a > f b)"
  shows "js_insert cmp x ys = insort_key f x ys"
proof (induction ys)
  case Nil
  then show ?case by simp
next
  case (Cons y ys)
  have "(cmp x y > 0) = (\<not> f x \<le> f y)"
    by (simp add: assms not_le)
  with Cons show ?case by simp
qed

lemma js_sort_sort_key:
  fixes f :: "'a \<Rightarrow> 'k::linorder"
  assumes "\<And>a b. (cmp a b > 0) = (f a > f b)"
  shows "js_sort cmp xs = sort_key f xs"
  by (induction xs) (simp_all add: js_insert_insort_key [OF assms])

lemma concat_map_single:
  assumes "distinct ks" and "k \<in> set ks" and "\<And>k'. k' \<in> set ks \<Longrightarrow> k' \<noteq> k \<Longrightarrow> G k' = []"
  shows "concat (map G ks) = G k"
  using assms
proof (induction ks)
  case Nil
  then show ?case by simp
next
  case (Cons a ks)
  show ?case
  proof (cases "a = k")
    case True
    with Cons.prems have "\<And>k'. k' \<in> set ks \<Longrightarrow> G k' = []"
      by auto
    then have "concat (map G ks) = []"
      by simp
    with True show ?thesis by simp
  next
    case False
    with Cons show ?thesis by auto
  qed
qed

lemma sum_list_mset_none:
  "k \<notin> set ks \<Longrightarrow> (\<Sum>k'\<leftarrow>ks. if k = k' then {#a#} else {#}) = {#}"
  by (induction ks) auto

lemma sum_list_mset_single:
  assumes "distinct ks" and "k \<in> set ks"
  shows "(\<Sum>k'\<leftarrow>ks. if k = k' then {#a#} else {#}) = {#a#}"
  using assms by (induction ks) (auto simp: sum_list_mset_none)

lemma mset_groups:
  assumes "distinct ks" and "f ` set xs \<subseteq> set ks"
  shows "(\<Sum>k\<leftarrow>ks. mset (filter (\<lambda>x. f x = k) xs)) = mset xs"
  using assms(2)
proof (induction xs)
  case Nil
  then show ?case by simp
next
  case (Cons a xs)
  have "(\<Sum>k\<leftarrow>ks. mset (filter (\<lambda>x. f x = k) (a # xs)))
      = (\<Sum>k\<leftarrow>ks. (if f a = k then {#a#} else {#}) + mset (filter (\<lambda>x. f x = k) xs))"
    by (intro arg_cong [where f = sum_list] map_cong) auto
  also have "\<dots> = (\<Sum>k\<leftarrow>ks. if f a = k then {#a#} else {#})
                 + (\<Sum>k\<leftarrow>ks. mset (filter (\<lambda>x. f x = k) xs))"
    by (simp add: sum_list_addf)
  also have "\<dots> = {#a#} + mset xs"
    using Cons assms(1) by (simp add: sum_list_mset_single)
  finally show ?case by simp
qed

lemma grouped_sort:
  fixes f :: "'a \<Rightarrow> 'k::linorder" and g :: "'a \<Rightarrow> 's::linorder"
  assumes "distinct ks" and "sorted ks" and "f ` set xs \<subseteq> set ks"
  shows "concat (map (\<lambda>k. sort_key g (filter (\<lambda>x. f x = k) xs)) ks)
       = sort_key (\<lambda>x. (f x, g x)) xs"
proof (rule properties_for_sort_key [symmetric])
  let ?F = "\<lambda>k. sort_key g (filter (\<lambda>x. f x = k) xs)"
  let ?R = "concat (map ?F ks)"
  show "mset ?R = mset xs"
    using mset_groups [OF assms(1,3)] by (simp add: mset_concat comp_def)
  show "filter (\<lambda>x. (f y, g y) = (f x, g x)) ?R = filter (\<lambda>x. (f y, g y) = (f x, g x)) xs"
    if "y \<in> set ?R" for y
  proof -
    from that assms(3) have yk: "f y \<in> set ks"
      by auto
    have "filter (\<lambda>x. (f y, g y) = (f x, g x)) ?R
        = concat (map (\<lambda>k. filter (\<lambda>x. (f y, g y) = (f x, g x)) (?F k)) ks)"
      by (simp add: filter_concat comp_def)
    also have "\<dots> = filter (\<lambda>x. (f y, g y) = (f x, g x)) (?F (f y))"
    proof (rule concat_map_single [OF assms(1) yk])
      fix k' assume "k' \<in> set ks" and "k' \<noteq> f y"
      then show "filter (\<lambda>x. (f y, g y) = (f x, g x)) (?F k') = []"
        by (auto simp: filter_empty_conv)
    qed
    also have "\<dots> = filter (\<lambda>x. g x = g y) (?F (f y))"
      by (rule filter_cong) auto
    also have "\<dots> = filter (\<lambda>x. g x = g y) (filter (\<lambda>x. f x = f y) xs)"
      by (rule sort_key_stable)
    also have "\<dots> = filter (\<lambda>x. (f y, g y) = (f x, g x)) xs"
      unfolding filter_filter by (rule filter_cong) auto
    finally show ?thesis .
  qed
  show "sorted (map (\<lambda>x. (f x, g x)) ?R)"
    using assms(1,2)
  proof (induction ks)
    case Nil
    then show ?case by simp
  next
    case (Cons k ks)
    have blk: "sorted (map (\<lambda>x. (f x, g x)) (?F k))"
    proof -
      have "sorted_wrt (\<lambda>x y. g x \<le> g y) (?F k)"
        using sorted_sort_key [of g "filter (\<lambda>x. f x = k) xs"] by (simp add: sorted_map)
      then have "sorted_wrt (\<lambda>x y. (f x, g x) \<le> (f y, g y)) (?F k)"
        by (rule sorted_wrt_mono_rel [rotated]) (simp add: less_eq_prod_def)
      then show ?thesis
        by (simp add: sorted_map)
    qed
    have cross: "(f x, g x) \<le> (f y, g y)"
      if "x \<in> set (?F k)" and "y \<in> set (concat (map ?F ks))" for x y
    proof -
      from that(1) have "f x = k" by simp
      moreover from that(2) have "f y \<in> set ks" by auto
      with Cons.prems have "k < f y" by (auto simp: less_le)
      ultimately show ?thesis by (simp add: less_eq_prod_def)
    qed
    from Cons blk cross show ?case
      by (auto simp: sorted_append)
  qed
qed


subsection \<open>Table of contents (createSubjectPDF, addTOCPages)\<close>

lemma tocPageCount_div: "tocPageCount n = (n + 19) div 20"
proof -
  define q where "q = (n + 19) div 20"
  have e: "n + 19 = 20 * q + (n + 19) mod 20"
    unfolding q_def by simp
  have m: "(n + 19) mod 20 < 20"
    by simp
  from e m have "n \<le> 20 * q" and "20 * q < n + 20"
    by linarith+
  then have "real n \<le> 20 * real q" and "20 * real q < real n + 20"
    by linarith+
  then have "\<lceil>real n / 20\<rceil> = int q"
    by (intro ceiling_unique) (simp_all add: field_simps)
  then show ?thesis
    by (simp add: tocPageCount_def entriesPerPage_def q_def)
qed

lemma add_content_eq:
  "add_content pdf n pages = pdf @ map (\<lambda>i. ContentPage (pages ! i) (n + i)) [0..<length pages]"
proof (induction pages arbitrary: pdf n)
  case Nil
  then show ?case by simp
next
  case (Cons p ps)
  have "map (\<lambda>i. ContentPage ((p # ps) ! i) (n + i)) [0..<length (p # ps)]
      = ContentPage p n # map (\<lambda>i. ContentPage (ps ! i) (Suc n + i)) [0..<length ps]"
    by (simp add: map_upt_Suc del: upt_Suc)
  with Cons show ?case by simp
qed

lemma addTOCPages_entries:
  "snd (addTOCPages pdf es) = map (\<lambda>e. e\<lparr>pageNumber := pageNumber e + tocPageCount (length es)\<rparr>) es"
  by (simp add: addTOCPages_def Let_def)

lemma addTOCPages_pdf:
  "fst (addTOCPages pdf es) = pdf @ map (\<lambda>i. TocPage (take 20 (drop (i * 20) (snd (addTOCPages pdf es))))) [0..<tocPageCount (length es)]"
  by (simp add: addTOCPages_def Let_def entriesPerPage_def)

lemma createSubjectPDF_entries:
  "snd (createSubjectPDF subj pages) =
     map (\<lambda>i. \<lparr>e_subject = subject (pages ! i), e_year = year (pages ! i),
                e_title = title (pages ! i), pageNumber = i + 2 + tocPageCount (length pages)\<rparr>)
         [0..<length pages]"
  by (rule nth_equalityI)
     (simp_all add: createSubjectPDF_def Let_def split_beta addTOCPages_entries)

lemma createSubjectPDF_pdf:
  "fst (createSubjectPDF subj pages) =
     TitlePage subj #
     map (\<lambda>j. TocPage (take 20 (drop (j * 20) (snd (createSubjectPDF subj pages)))))
         [0..<tocPageCount (length pages)] @
     map (\<lambda>i. ContentPage (pages ! i) (i + 2 + tocPageCount (length pages))) [0..<length pages]"
  by (simp add: createSubjectPDF_def Let_def split_beta add_content_eq addTOCPages_pdf
      addTOCPages_entries)

text \<open>
  Claim C6. For an ordered page list of length \<open>N\<close> the table of contents takes
  \<open>T = ceil (N / 20)\<close> listing pages of 20 entries each, placed after the title page;
  the entry at 1-based position \<open>i + 1\<close> gets page number \<open>(i + 1) + 1 + T\<close>, the
  content page of that entry is the page of that number in the finished document, and
  the page numbers strictly increase along the list.
\<close>

theorem toc_page_numbers:
  fixes pages :: "page list"
  defines "N \<equiv> length pages"
  defines "T \<equiv> nat \<lceil>real N / 20\<rceil>"
  shows "length (snd (createSubjectPDF subj pages)) = N
       \<and> length (fst (createSubjectPDF subj pages)) = 1 + T + N
       \<and> (\<forall>j<T. fst (createSubjectPDF subj pages) ! (1 + j) =
              TocPage (take 20 (drop (20 * j) (snd (createSubjectPDF subj pages)))))
       \<and> (\<forall>i<N. pageNumber (snd (createSubjectPDF subj pages) ! i) = (i + 1) + 1 + T
              \<and> fst (createSubjectPDF subj pages) ! ((i + 1) + 1 + T - 1) =
                  ContentPage (pages ! i) ((i + 1) + 1 + T))
       \<and> sorted_wrt (<) (map pageNumber (snd (createSubjectPDF subj pages)))"
proof -
  have T: "T = tocPageCount N"
    by (simp add: T_def tocPageCount_def entriesPerPage_def)
  have 1: "length (snd (createSubjectPDF subj pages)) = N"
    by (simp add: createSubjectPDF_entries N_def)
  have 2: "length (fst (createSubjectPDF subj pages)) = 1 + T + N"
    by (subst createSubjectPDF_pdf) (simp add: T N_def)
  have 3: "fst (createSubjectPDF subj pages) ! (1 + j) =
       TocPage (take 20 (drop (20 * j) (snd (createSubjectPDF subj pages))))" if "j < T" for j
    using that by (subst createSubjectPDF_pdf) (simp add: T N_def nth_append mult.commute)
  have 4: "pageNumber (snd (createSubjectPDF subj pages) ! i) = (i + 1) + 1 + T" if "i < N" for i
    using that by (simp add: createSubjectPDF_entries N_def T)
  have 5: "fst (createSubjectPDF subj pages) ! ((i + 1) + 1 + T - 1) =
       ContentPage (pages ! i) ((i + 1) + 1 + T)" if "i < N" for i
    using that by (subst createSubjectPDF_pdf) (simp add: T N_def nth_append)
  have 6: "sorted_wrt (<) (map pageNumber (snd (createSubjectPDF subj pages)))"
    by (simp add: createSubjectPDF_entries sorted_wrt_iff_nth_less)
  from 1 2 3 4 5 6 show ?thesis by blast
qed


theorem toc_page_numbers_witness:
  "(1::nat) < length [\<lparr>subject = ''Maths'', year = ''2024'', title = ''Maths - 2024 - MC'',
                        ptype = ''chart'', subType = None\<rparr>,
                      \<lparr>subject = ''Maths'', year = ''2024'', title = ''Maths - 2024 - ER'',
                        ptype = ''chart'', subType = None\<rparr>]
   \<and> pageNumber (snd (createSubjectPDF ''Maths''
         [\<lparr>subject = ''Maths'', year = ''2024'', title = ''Maths - 2024 - MC'',
            ptype = ''chart'', subType = None\<rparr>,
          \<lparr>subject = ''Maths'', year = ''2024'', title = ''Maths - 2024 - ER'',
            ptype = ''chart'', subType = None\<rparr>]) ! 1) = 4
   \<and> fst (createSubjectPDF ''Maths''
         [\<lparr>subject = ''Maths'', year = ''2024'', title = ''Maths - 2024 - MC'',
            ptype = ''chart'', subType = None\<rparr>,
          \<lparr>subject = ''Maths'', year = ''2024'', title = ''Maths - 2024 - ER'',
            ptype = ''chart'', subType = None\<rparr>]) ! 3 =
       ContentPage \<lparr>subject = ''Maths'', year = ''2024'', title = ''Maths - 2024 - ER'',
            ptype = ''chart'', subType = None\<rparr> 4"
  (is "_ < length ?ps \<and> _")
proof -
  have c: "\<lceil>(1::real) / 10\<rceil> = 1"
    by (rule ceiling_unique) simp_all
  have h: "(1::nat) < length ?ps"
    by simp
  note t = toc_page_numbers [where subj = "''Maths''" and pages = ?ps]
  from t [THEN conjunct2, THEN conjunct2, THEN conjunct2, THEN conjunct1, rule_format, OF h]
  show ?thesis
    by (simp add: c eval_nat_numeral)
qed


subsection \<open>Page order (sortPages)\<close>

lemma map_of_group_push:
  "map_of (group_push g k p) =
     (map_of g)(k \<mapsto> (case map_of g k of None \<Rightarrow> [p] | Some ps \<Rightarrow> ps @ [p]))"
  by (induction g) (auto simp: fun_eq_iff)

lemma keys_group_push:
  "map fst (group_push g k p) = (if k \<in> fst ` set g then map fst g else map fst g @ [k])"
  by (induction g) (fastforce simp: image_iff)+

lemma build_groups_snoc:
  "build_groups (ps @ [p]) = group_push (build_groups ps) (page_key p) p"
  by (simp add: build_groups_def)

lemma distinct_build_groups: "distinct (map fst (build_groups ps))"
  by (induction ps rule: rev_induct)
     (simp_all add: build_groups_snoc keys_group_push, simp add: build_groups_def)

lemma map_of_build_groups:
  "map_of (build_groups ps) k =
     (if k \<in> page_key ` set ps then Some (filter (\<lambda>p. page_key p = k) ps) else None)"
proof (induction ps rule: rev_induct)
  case Nil
  then show ?case by (simp add: build_groups_def)
next
  case (snoc p ps)
  then show ?case
    by (fastforce simp: build_groups_snoc map_of_group_push filter_empty_conv image_iff)
qed

lemma keys_build_groups: "fst ` set (build_groups ps) = page_key ` set ps"
proof -
  have "fst ` set (build_groups ps) = dom (map_of (build_groups ps))"
    by (simp add: dom_map_of_conv_image_fst)
  also have "\<dots> = page_key ` set ps"
    by (auto simp: dom_def map_of_build_groups)
  finally show ?thesis .
qed

lemma sortPages_sort_key:
  "sortPages ps = sort_key (\<lambda>p. (page_key p, score p)) ps"
proof -
  let ?ks = "sort (map fst (build_groups ps))"
  have cmp: "js_sort (\<lambda>a b. score a - score b) xs = sort_key score xs" for xs
    by (rule js_sort_sort_key) simp
  have "sortPages ps =
      concat (map (\<lambda>k. sort_key score (filter (\<lambda>p. page_key p = k) ps)) ?ks)"
    unfolding sortPages_def Let_def
    by (rule arg_cong [where f = concat], rule map_cong)
       (auto simp: map_of_build_groups keys_build_groups cmp)
  also have "\<dots> = sort_key (\<lambda>p. (page_key p, score p)) ps"
    by (rule grouped_sort) (simp_all add: distinct_build_groups keys_build_groups)
  finally show ?thesis .
qed

lemma sorted_fst_of_pairs:
  fixes f :: "'a \<Rightarrow> 'k::linorder" and g :: "'a \<Rightarrow> 's::linorder"
  assumes "sorted (map (\<lambda>x. (f x, g x)) xs)"
  shows "sorted (map f xs)"
  using assms unfolding sorted_map
  by (rule sorted_wrt_mono_rel [rotated]) (auto simp: less_eq_prod_def)

text \<open>
  The keys of \<open>groups\<close> in \<open>sortPages\<close> contain the character \<open>|\<close>: none of them
  names a property inherited from \<open>Object.prototype\<close> and none is an array index, so
  the association list in creation order is what the object holds and lists.
\<close>

lemma page_key_plain:
  "page_key p \<notin> set object_prototype_keys \<and> \<not> is_array_index (page_key p)"
proof -
  have m: "CHR ''|'' \<in> set (page_key p)"
    by (simp add: page_key_def)
  have "\<forall>k\<in>set object_prototype_keys. CHR ''|'' \<notin> set k"
    by (simp add: object_prototype_keys_def)
  with m have 1: "page_key p \<notin> set object_prototype_keys"
    by blast
  have "\<not> is_digit CHR ''|''"
    by (simp add: is_digit_def)
  with m have "\<not> list_all is_digit (page_key p)"
    by (auto simp: list_all_iff)
  then have 2: "\<not> is_array_index (page_key p)"
    by (simp add: is_array_index_def)
  from 1 2 show ?thesis
    by simp
qed

text \<open>
  The composite key inside one subject: two pages of the same subject have the same
  key exactly when they have the same year, and their keys compare as their years do.
\<close>

lemma append_less_append_left:
  fixes a x y :: string
  shows "(a @ x < a @ y) = (x < y)"
  by (induction a) simp_all

lemma page_key_subject_year: "page_key p = subject p @ ''|'' @ year p"
  by (simp add: page_key_def)

lemma page_key_same_subject:
  assumes "subject p = subject q"
  shows "(page_key p = page_key q) = (year p = year q)"
    and "(page_key p < page_key q) = (year p < year q)"
    and "(page_key p \<le> page_key q) = (year p \<le> year q)"
proof -
  show 1: "(page_key p = page_key q) = (year p = year q)"
    by (simp add: page_key_def assms)
  have "(page_key p < page_key q) = (''|'' @ year p < ''|'' @ year q)"
    unfolding page_key_def assms by (rule append_less_append_left)
  also have "\<dots> = (year p < year q)"
    by simp
  finally show 2: "(page_key p < page_key q) = (year p < year q)" .
  from 1 2 show "(page_key p \<le> page_key q) = (year p \<le> year q)"
    by (simp add: le_less)
qed

text \<open>
  Claim C5. \<open>sortPages\<close> returns the pages it was given, grouped by the composite key
  of subject and year, the string \<open>subject|year\<close>, in ascending string order of the
  key; inside a group the scores ascend; pages of equal key and score keep their
  encounter order; a page of score 50 (a breakdown) stands strictly before a page of
  score 60 (a tag summary, school versus state) of the same key; the score of a page
  is 35 for a top/bottom detail page, 25 for a performance summary, 60 for a title
  with \<open>Summary\<close> and \<open>School vs State\<close>, 40 for \<open>Summary\<close> alone, 50 for
  \<open>Breakdown\<close>, 20 for \<open>School vs State\<close> alone and 10 otherwise, the first case
  that applies deciding. Two pages with the same subject and year have the same key;
  two pages of one subject have the same key exactly when their years are equal, and
  their keys are ordered as their years are. So for the pages of one subject, which
  is what \<open>createPDF\<close> passes, the result is in ascending order of the year, inside a
  year in ascending order of the score, and pages of equal year and score keep their
  encounter order.
\<close>

theorem sortPages_order:
  "mset (sortPages ps) = mset ps
   \<and> sorted (map page_key (sortPages ps))
   \<and> (\<forall>i j. i < j \<longrightarrow> j < length (sortPages ps) \<longrightarrow>
          page_key (sortPages ps ! i) = page_key (sortPages ps ! j) \<longrightarrow>
          score (sortPages ps ! i) \<le> score (sortPages ps ! j))
   \<and> (\<forall>k s. filter (\<lambda>p. page_key p = k \<and> score p = s) (sortPages ps) =
            filter (\<lambda>p. page_key p = k \<and> score p = s) ps)
   \<and> (\<forall>i j. i < length (sortPages ps) \<longrightarrow> j < length (sortPages ps) \<longrightarrow>
          page_key (sortPages ps ! i) = page_key (sortPages ps ! j) \<longrightarrow>
          score (sortPages ps ! i) = 50 \<longrightarrow> score (sortPages ps ! j) = 60 \<longrightarrow> i < j)
   \<and> score p =
       (if ptype p = ''topbottom'' then 35
        else if subType p = Some ''performance-summary'' then 25
        else if includes_str (title p) ''Summary'' \<and> includes_str (title p) ''School vs State'' then 60
        else if includes_str (title p) ''Summary'' then 40
        else if includes_str (title p) ''Breakdown'' then 50
        else if includes_str (title p) ''School vs State'' then 20
        else 10)
   \<and> page_key p = subject p @ ''|'' @ year p
   \<and> (subject p = subject q \<longrightarrow>
          (page_key p = page_key q) = (year p = year q)
          \<and> (page_key p < page_key q) = (year p < year q))
   \<and> ((\<forall>x\<in>set ps. subject x = subj) \<longrightarrow>
          sorted (map (\<lambda>x. (year x, score x)) (sortPages ps))
          \<and> (\<forall>y s. filter (\<lambda>x. year x = y \<and> score x = s) (sortPages ps) =
                   filter (\<lambda>x. year x = y \<and> score x = s) ps))"
proof -
  let ?h = "\<lambda>p. (page_key p, score p)"
  let ?R = "sortPages ps"
  have R: "?R = sort_key ?h ps"
    by (rule sortPages_sort_key)
  have srt: "sorted (map ?h ?R)"
    unfolding R by (rule sorted_sort_key)
  have 1: "mset ?R = mset ps"
    by (simp add: R)
  have 2: "sorted (map page_key ?R)"
    using srt by (rule sorted_fst_of_pairs)
  have le: "?h (?R ! i) \<le> ?h (?R ! j)" if "i < j" and "j < length ?R" for i j
    using srt that by (simp add: sorted_map sorted_wrt_iff_nth_less)
  have 3: "score (?R ! i) \<le> score (?R ! j)"
    if "i < j" and "j < length ?R" and "page_key (?R ! i) = page_key (?R ! j)" for i j
    using le [OF that(1,2)] that(3) by (simp add: less_eq_prod_def)
  have 4: "filter (\<lambda>p. page_key p = k \<and> score p = s) ?R
         = filter (\<lambda>p. page_key p = k \<and> score p = s) ps" for k s
    using sort_key_stable [of ?h "(k, s)" ps] by (simp add: R)
  have 5: "i < j"
    if "i < length ?R" and "j < length ?R" and "page_key (?R ! i) = page_key (?R ! j)"
      and "score (?R ! i) = 50" and "score (?R ! j) = 60" for i j
  proof (rule ccontr)
    assume "\<not> i < j"
    moreover from that(4,5) have "i \<noteq> j" by auto
    ultimately have "j < i" by simp
    from 3 [OF this that(1) that(3) [symmetric]] that(4,5) show False by simp
  qed
  have 6: "score p =
       (if ptype p = ''topbottom'' then 35
        else if subType p = Some ''performance-summary'' then 25
        else if includes_str (title p) ''Summary'' \<and> includes_str (title p) ''School vs State'' then 60
        else if includes_str (title p) ''Summary'' then 40
        else if includes_str (title p) ''Breakdown'' then 50
        else if includes_str (title p) ''School vs State'' then 20
        else 10)"
    by (simp add: score_def Let_def)
  have 7: "page_key p = subject p @ ''|'' @ year p"
    by (rule page_key_subject_year)
  have 8: "(page_key p = page_key q) = (year p = year q)
          \<and> (page_key p < page_key q) = (year p < year q)" if "subject p = subject q"
    using page_key_same_subject(1,2) [OF that] by simp
  have 9: "sorted (map (\<lambda>x. (year x, score x)) ?R)
          \<and> (\<forall>y s. filter (\<lambda>x. year x = y \<and> score x = s) ?R =
                   filter (\<lambda>x. year x = y \<and> score x = s) ps)"
    if one: "\<forall>x\<in>set ps. subject x = subj"
  proof
    have inR: "subject x = subj" if "x \<in> set ?R" for x
      using that one 1 by (metis set_mset_mset)
    have "(year (?R ! i), score (?R ! i)) \<le> (year (?R ! j), score (?R ! j))"
      if "i < j" and "j < length ?R" for i j
    proof -
      from that have "?R ! i \<in> set ?R" and "?R ! j \<in> set ?R"
        by simp_all
      then have "subject (?R ! i) = subject (?R ! j)"
        by (simp add: inR)
      from page_key_same_subject [OF this] le [OF that] show ?thesis
        by (simp add: less_eq_prod_def)
    qed
    then show "sorted (map (\<lambda>x. (year x, score x)) ?R)"
      by (simp add: sorted_map sorted_wrt_iff_nth_less)
    show "\<forall>y s. filter (\<lambda>x. year x = y \<and> score x = s) ?R =
                   filter (\<lambda>x. year x = y \<and> score x = s) ps"
    proof (intro allI)
      fix y s
      let ?k = "subj @ ''|'' @ y"
      have "filter (\<lambda>x. year x = y \<and> score x = s) ?R
          = filter (\<lambda>x. page_key x = ?k \<and> score x = s) ?R"
        by (rule filter_cong) (auto simp: page_key_def inR)
      also have "\<dots> = filter (\<lambda>x. page_key x = ?k \<and> score x = s) ps"
        by (rule 4)
      also have "\<dots> = filter (\<lambda>x. year x = y \<and> score x = s) ps"
        by (rule filter_cong) (auto simp: page_key_def one)
      finally show "filter (\<lambda>x. year x = y \<and> score x = s) ?R
          = filter (\<lambda>x. year x = y \<and> score x = s) ps" .
    qed
  qed
  from 1 2 3 4 5 6 7 8 9 show ?thesis by blast
qed

theorem sortPages_order_witness:
  "sortPages [\<lparr>subject = ''Maths'', year = ''2024'',
                title = ''Maths - 2024 - QPC Summary (School vs State)'',
                ptype = ''chart'', subType = None\<rparr>,
              \<lparr>subject = ''Maths'', year = ''2023'',
                title = ''Maths - 2023 - QPC Summary (School vs State)'',
                ptype = ''chart'', subType = None\<rparr>,
              \<lparr>subject = ''Maths'', year = ''2024'',
                title = ''Maths - 2024 - QPC Breakdown: Algebra'',
                ptype = ''chart'', subType = None\<rparr>] =
             [\<lparr>subject = ''Maths'', year = ''2023'',
                title = ''Maths - 2023 - QPC Summary (School vs State)'',
                ptype = ''chart'', subType = None\<rparr>,
              \<lparr>subject = ''Maths'', year = ''2024'',
                title = ''Maths - 2024 - QPC Breakdown: Algebra'',
                ptype = ''chart'', subType = None\<rparr>,
              \<lparr>subject = ''Maths'', year = ''2024'',
                title = ''Maths - 2024 - QPC Summary (School vs State)'',
                ptype = ''chart'', subType = None\<rparr>]
   \<and> score \<lparr>subject = ''Maths'', year = ''2024'',
                title = ''Maths - 2024 - QPC Breakdown: Algebra'',
                ptype = ''chart'', subType = None\<rparr> = 50
   \<and> score \<lparr>subject = ''Maths'', year = ''2024'',
                title = ''Maths - 2024 - QPC Summary (School vs State)'',
                ptype = ''chart'', subType = None\<rparr> = 60
   \<and> (1::nat) < 2
   \<and> sorted [(''2023'', 60::int), (''2024'', 50), (''2024'', 60)]"
  (is "sortPages [?s, ?o, ?b] = [?o, ?b, ?s] \<and> _")
proof -
  let ?L = "[?s, ?o, ?b]"
  have e: "sortPages ?L = [?o, ?b, ?s]"
    by code_simp
  have b: "score ?b = 50"
    by code_simp
  have s: "score ?s = 60"
    by code_simp
  have o: "score ?o = 60"
    by code_simp
  have k: "page_key ?b = page_key ?s"
    by (simp add: page_key_def)
  have one: "\<forall>x\<in>set ?L. subject x = ''Maths''"
    by simp
  note t = sortPages_order [of ?L ?b ?s "''Maths''"]
  from t have "\<forall>i j. i < length (sortPages ?L) \<longrightarrow> j < length (sortPages ?L) \<longrightarrow>
          page_key (sortPages ?L ! i) = page_key (sortPages ?L ! j) \<longrightarrow>
          score (sortPages ?L ! i) = 50 \<longrightarrow> score (sortPages ?L ! j) = 60 \<longrightarrow> i < j"
    by blast
  from this [THEN spec, THEN spec, of 1 2] have 1: "(1::nat) < 2"
    using b s k by (simp add: e)
  from t [THEN conjunct2, THEN conjunct2, THEN conjunct2, THEN conjunct2, THEN conjunct2,
      THEN conjunct2, THEN conjunct2, THEN conjunct2, THEN mp, OF one, THEN conjunct1]
  have 2: "sorted [(''2023'', 60::int), (''2024'', 50), (''2024'', 60)]"
    unfolding e by (simp only: list.map page.simps b s o)
  from e b s 1 2 show ?thesis
    by (simp only: simp_thms)
qed

subsection \<open>Natural sort (naturalSortKey, sortQuestionsNaturally)\<close>

lemma natural_cmp_pos:
  "(natural_cmp column a b > 0) = (naturalSortKey (column a) > naturalSortKey (column b))"
proof -
  obtain x1 y1 where a: "naturalSortKey (column a) = (x1, y1)"
    by (cases "naturalSortKey (column a)")
  obtain x2 y2 where b: "naturalSortKey (column b) = (x2, y2)"
    by (cases "naturalSortKey (column b)")
  show ?thesis
    by (auto simp: natural_cmp_def Let_def a b diff_sign_def less_prod_def)
qed

lemma sortQuestionsNaturally_sort_key:
  "sortQuestionsNaturally column data = sort_key (\<lambda>a. naturalSortKey (column a)) data"
  unfolding sortQuestionsNaturally_def
  by (rule js_sort_sort_key) (rule natural_cmp_pos)

lemma takeWhile_digit_letters:
  "list_all is_letter ls \<Longrightarrow> takeWhile is_digit ls = []"
  by (cases ls) (auto simp: is_letter_def is_digit_def)

lemma match_split:
  assumes "list_all is_digit ds" and "list_all is_letter ls"
  shows "takeWhile is_digit (ds @ ls) = ds" and "dropWhile is_digit (ds @ ls) = ls"
proof -
  from assms(1) have d: "\<And>x. x \<in> set ds \<Longrightarrow> is_digit x"
    by (simp add: list_all_iff)
  show "takeWhile is_digit (ds @ ls) = ds"
    by (simp add: takeWhile_append2 [OF d] takeWhile_digit_letters [OF assms(2)])
  have "dropWhile is_digit (ds @ ls) = dropWhile is_digit ls"
    using d by (simp add: dropWhile_append2)
  also have "\<dots> = ls"
    using takeWhile_dropWhile_id [of is_digit ls] takeWhile_digit_letters [OF assms(2)]
    by simp
  finally show "dropWhile is_digit (ds @ ls) = ls" .
qed

lemma naturalSortKey_match:
  assumes "trim s = ds @ ls" and "ds \<noteq> []" and "list_all is_digit ds" and "list_all is_letter ls"
  shows "naturalSortKey s = (to_double (digits_value ds), toLowerCase ls)"
  unfolding naturalSortKey_def Let_def assms(1) match_split [OF assms(3,4)] parseInt_digits_def
  using assms(2,4) by simp

lemma naturalSortKey_no_match:
  assumes "\<not> (\<exists>ds ls. trim s = ds @ ls \<and> ds \<noteq> [] \<and> list_all is_digit ds \<and> list_all is_letter ls)"
  shows "naturalSortKey s = (\<infinity>, trim s)"
proof -
  have "\<not> (takeWhile is_digit (trim s) \<noteq> [] \<and> list_all is_letter (dropWhile is_digit (trim s)))"
  proof
    assume h: "takeWhile is_digit (trim s) \<noteq> [] \<and> list_all is_letter (dropWhile is_digit (trim s))"
    have "trim s = takeWhile is_digit (trim s) @ dropWhile is_digit (trim s)"
      by simp
    moreover have "list_all is_digit (takeWhile is_digit (trim s))"
      unfolding list_all_iff by (blast dest: set_takeWhileD)
    ultimately show False
      using assms h by blast
  qed
  then show ?thesis
    unfolding naturalSortKey_def Let_def by (simp only: if_False)
qed

lemma to_double_exact: "n < 2 ^ 53 \<Longrightarrow> to_double n = enat n"
  by (simp add: to_double_def)

text \<open>The two labels around \<open>2^53\<close>, evaluated.\<close>

lemma floorlog_example1: "floorlog 2 9007199254740993 = 54"
proof (rule le_antisym)
  show "floorlog 2 9007199254740993 \<le> 54"
    by (simp add: floorlog_le_iff)
  have "Suc 53 \<le> floorlog 2 9007199254740993"
    by (rule floorlog_ge_SucI) simp_all
  then show "54 \<le> floorlog 2 9007199254740993"
    by simp
qed

lemma floorlog_example2: "floorlog 2 9007199254740992 = 54"
proof (rule le_antisym)
  show "floorlog 2 9007199254740992 \<le> 54"
    by (simp add: floorlog_le_iff)
  have "Suc 53 \<le> floorlog 2 9007199254740992"
    by (rule floorlog_ge_SucI) simp_all
  then show "54 \<le> floorlog 2 9007199254740992"
    by simp
qed

lemma to_double_example1: "to_double 9007199254740993 = enat 9007199254740992"
  by (simp add: to_double_def floorlog_example1 Let_def)

lemma to_double_example2: "to_double 9007199254740992 = enat 9007199254740992"
  by (simp add: to_double_def floorlog_example2 Let_def)

lemma digits_value_example1: "digits_value ''9007199254740993'' = 9007199254740993"
  by (simp add: digits_value_def)

lemma digits_value_example2: "digits_value ''9007199254740992'' = 9007199254740992"
  by (simp add: digits_value_def)

lemma trim_example1: "trim ''9007199254740993'' = ''9007199254740993''"
  by (simp add: trim_def is_space_def)

lemma trim_example2: "trim ''9007199254740992b'' = ''9007199254740992b''"
  by (simp add: trim_def is_space_def)

lemma key_example1: "naturalSortKey ''9007199254740993'' = (enat 9007199254740992, [])"
  by (rule trans [OF naturalSortKey_match [where ds = "''9007199254740993''" and ls = "[]"]])
     (simp_all add: trim_example1 digits_value_example1 to_double_example1 is_digit_def toLowerCase_def)

lemma key_example2: "naturalSortKey ''9007199254740992b'' = (enat 9007199254740992, ''b'')"
  by (rule trans [OF naturalSortKey_match [where ds = "''9007199254740992''" and ls = "''b''"]])
     (simp_all add: trim_example2 digits_value_example2 to_double_example2 is_digit_def is_letter_def toLowerCase_def lower_char_def)

text \<open>
  Claim C1, as stated, fails: with the numeric part read as the integer value of the
  digits, the label \<open>9007199254740992b\<close> has the smaller key, but the code leaves
  \<open>9007199254740993\<close> in front of it, since \<open>parseInt\<close> gives both the number
  \<open>9007199254740992\<close>.
\<close>

theorem natural_sort_key_counterexample:
  "sortQuestionsNaturally (\<lambda>a. a) [''9007199254740993'', ''9007199254740992b'']
     = [''9007199254740993'', ''9007199254740992b'']
   \<and> \<not> sorted (map spec_naturalSortKey
        (sortQuestionsNaturally (\<lambda>a. a) [''9007199254740993'', ''9007199254740992b'']))"
proof -
  have r: "sortQuestionsNaturally (\<lambda>a. a) [''9007199254740993'', ''9007199254740992b'']
     = [''9007199254740993'', ''9007199254740992b'']"
    by (simp add: sortQuestionsNaturally_def natural_cmp_def key_example1 key_example2 Let_def)
  have s1: "spec_naturalSortKey ''9007199254740993'' = (enat 9007199254740993, [])"
    by (simp add: spec_naturalSortKey_def trim_example1 digits_value_example1 is_digit_def toLowerCase_def Let_def)
  have s2: "spec_naturalSortKey ''9007199254740992b'' = (enat 9007199254740992, ''b'')"
    by (simp add: spec_naturalSortKey_def trim_example2 digits_value_example2 is_digit_def is_letter_def toLowerCase_def
        lower_char_def Let_def)
  show ?thesis
    by (simp add: r s1 s2 less_eq_prod_def)
qed

text \<open>
  Claim C1, amended. \<open>sortQuestionsNaturally\<close> returns a permutation of its input,
  ascending in the key \<open>naturalSortKey\<close> under the order "numeric part first, then the
  second component as a string", and stable: elements of equal key keep their input
  order. An element whose numeric part is finite stands before every element whose
  numeric part is \<open>Infinity\<close>. A label whose trimmed string is one or more digits
  followed by letters only has the key (number value of the digits, lower-cased
  letters), the number value being the integer value itself below \<open>2^53\<close>; every
  other label has the key (\<open>Infinity\<close>, trimmed string).
\<close>

theorem natural_sort_amended:
  fixes column :: "'a \<Rightarrow> string" and data :: "'a list"
  defines "key \<equiv> \<lambda>a. naturalSortKey (column a)"
  defines "R \<equiv> sortQuestionsNaturally column data"
  shows
   "mset R = mset data
    \<and> sorted (map key R)
    \<and> (\<forall>k. filter (\<lambda>a. key a = k) R = filter (\<lambda>a. key a = k) data)
    \<and> (\<forall>i j. i < length R \<longrightarrow> j < length R \<longrightarrow>
          fst (key (R ! i)) \<noteq> \<infinity> \<longrightarrow> fst (key (R ! j)) = \<infinity> \<longrightarrow> i < j)
    \<and> (\<forall>ds ls. trim s = ds @ ls \<longrightarrow> ds \<noteq> [] \<longrightarrow> list_all is_digit ds \<longrightarrow> list_all is_letter ls \<longrightarrow>
          naturalSortKey s = (to_double (digits_value ds), toLowerCase ls)
          \<and> (digits_value ds < 2 ^ 53 \<longrightarrow> to_double (digits_value ds) = enat (digits_value ds)))
    \<and> (\<not> (\<exists>ds ls. trim s = ds @ ls \<and> ds \<noteq> [] \<and> list_all is_digit ds \<and> list_all is_letter ls) \<longrightarrow>
          naturalSortKey s = (\<infinity>, trim s))"
proof -
  have R: "R = sort_key key data"
    by (simp add: R_def key_def sortQuestionsNaturally_sort_key)
  have 1: "mset R = mset data"
    by (simp add: R)
  have 2: "sorted (map key R)"
    unfolding R by (rule sorted_sort_key)
  have 3: "filter (\<lambda>a. key a = k) R = filter (\<lambda>a. key a = k) data" for k
    unfolding R by (rule sort_key_stable)
  have le: "key (R ! i) \<le> key (R ! j)" if "i < j" and "j < length R" for i j
    using 2 that by (simp add: sorted_map sorted_wrt_iff_nth_less)
  have 4: "i < j"
    if "i < length R" and "j < length R" and "fst (key (R ! i)) \<noteq> \<infinity>"
      and "fst (key (R ! j)) = \<infinity>" for i j
  proof (rule ccontr)
    assume "\<not> i < j"
    moreover from that(3,4) have "i \<noteq> j" by auto
    ultimately have "j < i" by simp
    from le [OF this that(1)] have "fst (key (R ! j)) \<le> fst (key (R ! i))"
      by (auto simp: less_eq_prod_def prod_eq_iff)
    with that(3,4) show False by simp
  qed
  have 5: "naturalSortKey s = (to_double (digits_value ds), toLowerCase ls)
          \<and> (digits_value ds < 2 ^ 53 \<longrightarrow> to_double (digits_value ds) = enat (digits_value ds))"
    if "trim s = ds @ ls" and "ds \<noteq> []" and "list_all is_digit ds" and "list_all is_letter ls"
    for ds ls
    using naturalSortKey_match [OF that] by (simp add: to_double_def)
  have 6: "\<not> (\<exists>ds ls. trim s = ds @ ls \<and> ds \<noteq> [] \<and> list_all is_digit ds \<and> list_all is_letter ls) \<longrightarrow>
          naturalSortKey s = (\<infinity>, trim s)"
    using naturalSortKey_no_match by blast
  from 1 2 3 4 5 6 show ?thesis by blast
qed

theorem natural_sort_amended_witness:
  "trim '' 12B'' = ''12'' @ ''B'' \<and> ''12'' \<noteq> [] \<and> list_all is_digit ''12''
   \<and> list_all is_letter ''B'' \<and> digits_value ''12'' < 2 ^ 53
   \<and> naturalSortKey '' 12B'' = (enat 12, ''b'')
   \<and> naturalSortKey ''Q1'' = (\<infinity>, ''Q1'')
   \<and> sortQuestionsNaturally (\<lambda>a. a) [''10'', ''Q1'', ''2b'', ''2a''] = [''2a'', ''2b'', ''10'', ''Q1'']
   \<and> sorted (map naturalSortKey (sortQuestionsNaturally (\<lambda>a. a) [''10'', ''Q1'', ''2b'', ''2a'']))"
proof -
  have h: "trim '' 12B'' = ''12'' @ ''B''" "''12'' \<noteq> []" "list_all is_digit ''12''"
    "list_all is_letter ''B''"
    by (simp_all add: trim_def is_space_def is_digit_def is_letter_def)
  have v: "digits_value ''12'' = 12"
    by (simp add: digits_value_def)
  have n: "\<not> (\<exists>ds ls. trim ''Q1'' = ds @ ls \<and> ds \<noteq> [] \<and> list_all is_digit ds \<and> list_all is_letter ls)"
    by (auto simp: trim_def is_space_def is_digit_def Cons_eq_append_conv)
  have lc: "toLowerCase ''B'' = ''b''"
    by code_simp
  have tq: "trim ''Q1'' = ''Q1''"
    by (simp add: trim_def is_space_def)
  note a = natural_sort_amended [where column = "\<lambda>a. a"
      and data = "[''10'', ''Q1'', ''2b'', ''2a'']" and s = "'' 12B''"]
  note b = natural_sort_amended [where column = "\<lambda>a. a"
      and data = "[''10'', ''Q1'', ''2b'', ''2a'']" and s = "''Q1''"]
  from a [THEN conjunct2, THEN conjunct2, THEN conjunct2, THEN conjunct2, THEN conjunct1,
      rule_format, OF h]
  have 1: "naturalSortKey '' 12B'' = (enat 12, ''b'')"
    by (simp add: v lc)
  from b [THEN conjunct2, THEN conjunct2, THEN conjunct2, THEN conjunct2, THEN conjunct2,
      rule_format, OF n]
  have 2: "naturalSortKey ''Q1'' = (\<infinity>, ''Q1'')"
    by (simp add: tq)
  from a have 3: "sorted (map naturalSortKey (sortQuestionsNaturally (\<lambda>a. a) [''10'', ''Q1'', ''2b'', ''2a'']))"
    by blast
  have k: "naturalSortKey ''10'' = (enat 10, [])" "naturalSortKey ''2b'' = (enat 2, ''b'')"
    "naturalSortKey ''2a'' = (enat 2, ''a'')"
    by (simp_all add: naturalSortKey_def trim_def is_space_def is_digit_def is_letter_def
        parseInt_digits_def digits_value_def to_double_def toLowerCase_def lower_char_def Let_def)
  have 4: "sortQuestionsNaturally (\<lambda>a. a) [''10'', ''Q1'', ''2b'', ''2a''] = [''2a'', ''2b'', ''10'', ''Q1'']"
    by (simp add: sortQuestionsNaturally_def natural_cmp_def k 2 diff_sign_def Let_def)
  from h v 1 2 3 4 show ?thesis
    by simp
qed

text \<open>
  Claim C10. \<open>sortQuestionsNaturally\<close> leaves its input array as it was: the result
  is a newly allocated array, different from the input and from every array that
  existed before, every array that existed before the call (the input among them) has
  the same elements in the same order after it, and the new array holds the sorted
  elements.
\<close>

lemma sortQuestionsNaturally_st_eq:
  "sortQuestionsNaturally_st column st data =
     (st @ [sortQuestionsNaturally column (st ! data)], length st)"
  by (simp add: sortQuestionsNaturally_st_def array_spread_def array_sort_def
      sortQuestionsNaturally_def)

theorem sortQuestionsNaturally_frame:
  assumes "data < length st"
  shows "snd (sortQuestionsNaturally_st column st data) \<noteq> data
       \<and> snd (sortQuestionsNaturally_st column st data) = length st
       \<and> length (fst (sortQuestionsNaturally_st column st data)) = length st + 1
       \<and> (\<forall>r<length st. fst (sortQuestionsNaturally_st column st data) ! r = st ! r)
       \<and> fst (sortQuestionsNaturally_st column st data) ! data = st ! data
       \<and> fst (sortQuestionsNaturally_st column st data)
            ! snd (sortQuestionsNaturally_st column st data)
          = sortQuestionsNaturally column (st ! data)"
  using assms by (simp add: sortQuestionsNaturally_st_eq nth_append)

theorem sortQuestionsNaturally_frame_witness:
  "(0::nat) < length [[''10'', ''2'']]
   \<and> fst (sortQuestionsNaturally_st (\<lambda>a. a) [[''10'', ''2'']] 0) ! 0 = [''10'', ''2'']
   \<and> snd (sortQuestionsNaturally_st (\<lambda>a. a) [[''10'', ''2'']] 0) = 1
   \<and> fst (sortQuestionsNaturally_st (\<lambda>a. a) [[''10'', ''2'']] 0) ! 1 = [''2'', ''10'']"
proof -
  have h: "(0::nat) < length [[''10'', ''2'']]"
    by simp
  have k: "naturalSortKey ''10'' = (enat 10, [])" "naturalSortKey ''2'' = (enat 2, [])"
    by (simp_all add: naturalSortKey_def trim_def is_space_def is_digit_def is_letter_def
        parseInt_digits_def digits_value_def to_double_def toLowerCase_def Let_def)
  have s: "sortQuestionsNaturally (\<lambda>a. a) [''10'', ''2''] = [''2'', ''10'']"
    by (simp add: sortQuestionsNaturally_def natural_cmp_def k diff_sign_def Let_def)
  from sortQuestionsNaturally_frame [OF h, of "\<lambda>a. a"] show ?thesis
    by (auto simp: s)
qed

subsection \<open>Header detection (loadAndParse)\<close>

lemma scan_header_Some:
  "scan_header i rs = Some k \<Longrightarrow>
     i \<le> k \<and> k < 20 \<and> k - i < length rs \<and> row_qualifies (rs ! (k - i))
     \<and> (\<forall>j<k - i. \<not> row_qualifies (rs ! j))"
proof (induction rs arbitrary: i)
  case Nil
  then show ?case by simp
next
  case (Cons r rs)
  show ?case
  proof (cases "i < 20 \<and> \<not> row_qualifies r")
    case True
    with Cons.prems have "scan_header (i + 1) rs = Some k"
      by simp
    from Cons.IH [OF this] have ih: "i + 1 \<le> k" "k < 20" "k - (i + 1) < length rs"
      "row_qualifies (rs ! (k - (i + 1)))" "\<forall>j<k - (i + 1). \<not> row_qualifies (rs ! j)"
      by auto
    from ih(1) have ki: "k - i = Suc (k - (i + 1))"
      by simp
    have "\<forall>j<k - i. \<not> row_qualifies ((r # rs) ! j)"
      using True ih(5) unfolding ki by (auto simp: nth_Cons' less_Suc_eq_0_disj)
    with ih show ?thesis
      unfolding ki by auto
  next
    case False
    with Cons.prems show ?thesis
      by (auto split: if_splits)
  qed
qed

lemma scan_header_None:
  "scan_header i rs = None \<Longrightarrow> \<forall>j<length rs. i + j < 20 \<longrightarrow> \<not> row_qualifies (rs ! j)"
proof (induction rs arbitrary: i)
  case Nil
  then show ?case by simp
next
  case (Cons r rs)
  show ?case
  proof (cases "i < 20")
    case True
    with Cons.prems have r: "\<not> row_qualifies r" and "scan_header (i + 1) rs = None"
      by (auto split: if_splits)
    from Cons.IH [OF this(2)] have "\<forall>j<length rs. i + 1 + j < 20 \<longrightarrow> \<not> row_qualifies (rs ! j)" .
    with r show ?thesis
      by (auto simp: nth_Cons' less_Suc_eq_0_disj)
  next
    case False
    then show ?thesis by simp
  qed
qed

lemma row_qualifies_iff:
  "row_qualifies cells \<longleftrightarrow>
     (\<exists>j<min 12 (length cells). header_cell (cells ! j) = ''Subject'')
     \<and> (\<exists>j<min 12 (length cells). includes_str (header_cell (cells ! j)) ''Question (Item)'')"
proof -
  have len: "length (take 12 cells) = min 12 (length cells)"
    by simp
  have nth: "\<And>j. j < min 12 (length cells) \<Longrightarrow> take 12 cells ! j = cells ! j"
    by simp
  have "(\<exists>x\<in>set (take 12 cells). P (header_cell x))
      = (\<exists>j<min 12 (length cells). P (header_cell (cells ! j)))" for P
  proof
    assume "\<exists>x\<in>set (take 12 cells). P (header_cell x)"
    then obtain j where "j < length (take 12 cells)" and "P (header_cell (take 12 cells ! j))"
      by (metis in_set_conv_nth)
    then show "\<exists>j<min 12 (length cells). P (header_cell (cells ! j))"
      by (intro exI [of _ j]) simp
  next
    assume "\<exists>j<min 12 (length cells). P (header_cell (cells ! j))"
    then obtain j where j: "j < min 12 (length cells)" and p: "P (header_cell (cells ! j))"
      by blast
    from j have "take 12 cells ! j \<in> set (take 12 cells)"
      by (intro nth_mem) simp
    moreover from j p have "P (header_cell (take 12 cells ! j))"
      by simp
    ultimately show "\<exists>x\<in>set (take 12 cells). P (header_cell x)"
      by blast
  qed
  note ex = this
  have "(''Subject'' \<in> set (map header_cell (take 12 cells)))
      = (\<exists>x\<in>set (take 12 cells). header_cell x = ''Subject'')"
    by force
  also have "\<dots> = (\<exists>j<min 12 (length cells). header_cell (cells ! j) = ''Subject'')"
    by (rule ex)
  finally have a: "(''Subject'' \<in> set (map header_cell (take 12 cells)))
      = (\<exists>j<min 12 (length cells). header_cell (cells ! j) = ''Subject'')" .
  have "list_ex (\<lambda>c. includes_str c ''Question (Item)'') (map header_cell (take 12 cells))
      = (\<exists>x\<in>set (take 12 cells). includes_str (header_cell x) ''Question (Item)'')"
    by (simp add: list_ex_iff)
  also have "\<dots> = (\<exists>j<min 12 (length cells).
      includes_str (header_cell (cells ! j)) ''Question (Item)'')"
    by (rule ex)
  finally have b: "list_ex (\<lambda>c. includes_str c ''Question (Item)'') (map header_cell (take 12 cells))
      = (\<exists>j<min 12 (length cells). includes_str (header_cell (cells ! j)) ''Question (Item)'')" .
  show ?thesis
    by (simp only: row_qualifies_def Let_def a b)
qed

text \<open>
  Claim C7. Header detection looks at the rows with index below \<open>min (length aoa) 20\<close>
  and, in each, at the cells with index below 12; a cell that is \<open>null\<close> or
  \<open>undefined\<close> or whose string form is longer than 1000 characters counts as the
  empty string, any other cell as its trimmed string form. A row qualifies exactly
  when one of these strings is \<open>Subject\<close> and one contains \<open>Question (Item)\<close>. The
  first qualifying row from the top is the header row; without a qualifying row the
  header row is row 0.
\<close>

theorem header_detection:
  "(row_qualifies cells \<longleftrightarrow>
      (\<exists>j<min 12 (length cells). header_cell (cells ! j) = ''Subject'')
      \<and> (\<exists>j<min 12 (length cells). includes_str (header_cell (cells ! j)) ''Question (Item)''))
   \<and> header_cell c =
      (if c = JNull \<or> c = JUndefined \<or> length (ToString c) > 1000 then [] else trim (ToString c))
   \<and> ((\<exists>i<min (length aoa) 20. row_qualifies (aoa ! i)) \<longrightarrow>
        (\<exists>i<min (length aoa) 20. find_header aoa = (i, True) \<and> row_qualifies (aoa ! i)
            \<and> (\<forall>j<i. \<not> row_qualifies (aoa ! j))))
   \<and> ((\<forall>i<min (length aoa) 20. \<not> row_qualifies (aoa ! i)) \<longrightarrow> find_header aoa = (0, False))"
proof -
  have 1: "header_cell c =
      (if c = JNull \<or> c = JUndefined \<or> length (ToString c) > 1000 then [] else trim (ToString c))"
    by (simp add: header_cell_def Let_def)
  have some: "\<exists>i<min (length aoa) 20. find_header aoa = (i, True) \<and> row_qualifies (aoa ! i)
            \<and> (\<forall>j<i. \<not> row_qualifies (aoa ! j))" if "scan_header 0 aoa = Some k" for k
    using scan_header_Some [OF that] that by (auto simp: find_header_def)
  have none: "\<forall>i<min (length aoa) 20. \<not> row_qualifies (aoa ! i)" if "scan_header 0 aoa = None"
    using scan_header_None [OF that] by simp
  have 2: "\<exists>i<min (length aoa) 20. find_header aoa = (i, True) \<and> row_qualifies (aoa ! i)
            \<and> (\<forall>j<i. \<not> row_qualifies (aoa ! j))"
    if "\<exists>i<min (length aoa) 20. row_qualifies (aoa ! i)"
  proof (cases "scan_header 0 aoa")
    case None
    from none [OF this] that show ?thesis by blast
  next
    case (Some k)
    then show ?thesis by (rule some)
  qed
  have 3: "find_header aoa = (0, False)" if "\<forall>i<min (length aoa) 20. \<not> row_qualifies (aoa ! i)"
  proof (cases "scan_header 0 aoa")
    case None
    then show ?thesis by (simp add: find_header_def)
  next
    case (Some k)
    from some [OF this] that show ?thesis by blast
  qed
  from row_qualifies_iff [of cells] 1 2 3 show ?thesis
    by blast
qed

theorem header_detection_witness:
  "(1::nat) < min (length [[JStr ''HSC export''], [JNull, JStr '' Subject '', JNum (NumDec 3 0),
        JStr ''Question (Item) no.'']]) 20
   \<and> row_qualifies ([[JStr ''HSC export''], [JNull, JStr '' Subject '', JNum (NumDec 3 0),
        JStr ''Question (Item) no.'']] ! 1)
   \<and> find_header [[JStr ''HSC export''], [JNull, JStr '' Subject '', JNum (NumDec 3 0),
        JStr ''Question (Item) no.'']] = (1, True)
   \<and> \<not> row_qualifies ([[JStr ''Subject'', JStr ''Year'']] ! 0)
   \<and> find_header [[JStr ''Subject'', JStr ''Year'']] = (0, False)"
  (is "_ < min (length ?A) 20 \<and> _ \<and> _ \<and> \<not> row_qualifies (?B ! 0) \<and> _")
proof -
  have q0: "\<not> row_qualifies [JStr ''HSC export'']"
    by code_simp
  have q1: "row_qualifies [JNull, JStr '' Subject '', JNum (NumDec 3 0), JStr ''Question (Item) no.'']"
    by code_simp
  have qb: "\<not> row_qualifies [JStr ''Subject'', JStr ''Year'']"
    by code_simp
  have ha: "\<exists>i<min (length ?A) 20. row_qualifies (?A ! i)"
    using q1 by (intro exI [of _ 1]) simp
  have hb: "\<forall>i<min (length ?B) 20. \<not> row_qualifies (?B ! i)"
    using qb by simp
  from header_detection [where aoa = ?A, THEN conjunct2, THEN conjunct2, THEN conjunct1,
      THEN mp, OF ha]
  obtain i where i: "i < min (length ?A) 20" "find_header ?A = (i, True)" "row_qualifies (?A ! i)"
    by blast
  from i(1,3) q0 have "i = 1"
    by (cases i) auto
  with i have a: "find_header ?A = (1, True)"
    by simp
  from header_detection [where aoa = ?B, THEN conjunct2, THEN conjunct2, THEN conjunct2,
      THEN mp, OF hb]
  have b: "find_header ?B = (0, False)" .
  from a b q1 qb show ?thesis
    by simp
qed

subsection \<open>Chunk reconstruction (reconstructBase64)\<close>

lemma b64_cmp_pos: "(b64_cmp a b > 0) = (b64_num a > b64_num b)"
  by (auto simp: b64_cmp_def diff_sign_def)

text \<open>
  A chunk key is no array index, so \<open>Object.keys\<close> lists the chunk keys of a row in
  the order in which the row declares them.
\<close>

lemma b64_key_no_index: "is_b64_key k \<Longrightarrow> \<not> is_array_index k"
proof
  assume k: "is_b64_key k" and i: "is_array_index k"
  from k have "startsWith k ''HSC_BASE64_''"
    by (simp add: is_b64_key_def)
  then have "k \<noteq> [] \<and> hd k = CHR ''H''"
    by (cases k) auto
  moreover from i have "k \<noteq> [] \<longrightarrow> is_digit (hd k)"
    by (cases k) (auto simp: is_array_index_def)
  ultimately show False
    by (auto simp: is_digit_def)
qed

lemma b64_keys_own_entries:
  "filter is_b64_key (map fst (own_entries r)) = filter is_b64_key (map fst r)"
proof -
  let ?I = "\<lambda>kv. is_array_index (fst kv)"
  have 1: "filter is_b64_key (map fst (sort_key (\<lambda>kv. digits_value (fst kv)) (filter ?I r))) = []"
    by (auto simp: filter_empty_conv dest: b64_key_no_index)
  have 2: "filter is_b64_key (map fst (filter (\<lambda>kv. \<not> ?I kv) r)) = filter is_b64_key (map fst r)"
    by (induction r) (auto dest: b64_key_no_index)
  show ?thesis
    by (simp add: own_entries_def 1 2)
qed

lemma digits_value_snoc:
  "digits_value (ds @ [c]) = 10 * digits_value ds + ((of_char c :: nat) - 48)"
  by (simp add: digits_value_def)

lemma first_pass_subset:
  "k \<in> set (first_pass ms mc r t ks) \<Longrightarrow>
     k \<in> set ks \<and> truthy (get_prop r k) \<and> length (ToString (get_prop r k)) \<le> mc"
  by (induction ks arbitrary: t) (auto simp: Let_def split: if_splits)

lemma first_pass_prefix:
  fixes r :: row and mc ms :: nat
  defines "ok \<equiv> \<lambda>k. truthy (get_prop r k) \<and> length (ToString (get_prop r k)) \<le> mc"
  defines "len \<equiv> \<lambda>k. length (ToString (get_prop r k))"
  assumes "t \<le> ms"
  shows "\<exists>n\<le>length (filter ok ks).
           first_pass ms mc r t ks = take n (filter ok ks)
           \<and> t + sum_list (map len (take n (filter ok ks))) \<le> ms
           \<and> (n < length (filter ok ks) \<longrightarrow>
                t + sum_list (map len (take (Suc n) (filter ok ks))) > ms)"
  using assms(3)
proof (induction ks arbitrary: t)
  case Nil
  then show ?case by simp
next
  case (Cons k ks)
  show ?case
  proof (cases "ok k")
    case False
    then have "first_pass ms mc r t (k # ks) = first_pass ms mc r t ks"
      by (auto simp: ok_def Let_def)
    with Cons.IH [OF Cons.prems] False show ?thesis
      by simp
  next
    case True
    show ?thesis
    proof (cases "t + len k > ms")
      case over: True
      with True have "first_pass ms mc r t (k # ks) = []"
        by (auto simp: ok_def len_def Let_def)
      with True over Cons.prems show ?thesis
        by (intro exI [of _ 0]) simp
    next
      case fits: False
      then have t': "t + len k \<le> ms"
        by simp
      from True fits have fp: "first_pass ms mc r t (k # ks) = k # first_pass ms mc r (t + len k) ks"
        by (auto simp: ok_def len_def Let_def)
      from Cons.IH [OF t'] obtain n where n: "n \<le> length (filter ok ks)"
        "first_pass ms mc r (t + len k) ks = take n (filter ok ks)"
        "t + len k + sum_list (map len (take n (filter ok ks))) \<le> ms"
        "n < length (filter ok ks) \<longrightarrow>
           t + len k + sum_list (map len (take (Suc n) (filter ok ks))) > ms"
        by blast
      with True fp show ?thesis
        by (intro exI [of _ "Suc n"]) (simp add: add.assoc)
    qed
  qed
qed

lemma second_pass_valid:
  assumes "\<And>k. k \<in> set vs \<Longrightarrow> truthy (get_prop r k)"
  shows "second_pass r vs = filter (\<lambda>p. p \<noteq> []) (map (\<lambda>k. trim (ToString (get_prop r k))) vs)"
  unfolding second_pass_def
  by (rule arg_cong [where f = "filter _"], rule map_cong) (simp_all add: assms)

lemma reconstruct_Some:
  fixes r :: row and mc ms mcs :: nat
  defines "K \<equiv> take mcs (sort_key b64_num (filter is_b64_key (map fst r)))"
  defines "V \<equiv> first_pass ms mc r 0 K"
  defines "parts \<equiv> filter (\<lambda>p. p \<noteq> []) (map (\<lambda>k. trim (ToString (get_prop r k))) V)"
  shows "reconstruct ms mcs mc (Some r) =
     (if parts = [] then None
      else Some (if startsWith (concat parts) ''data:image'' then concat parts
                 else ''data:image/png;base64,'' @ concat parts))"
proof -
  have srt: "js_sort b64_cmp ks = sort_key b64_num ks" for ks
    by (rule js_sort_sort_key) (rule b64_cmp_pos)
  have sp: "second_pass r V = parts"
    unfolding parts_def V_def by (rule second_pass_valid) (simp add: first_pass_subset)
  have ne: "concat parts \<noteq> []" if "parts \<noteq> []"
  proof -
    from that obtain p ps where "parts = p # ps"
      by (cases parts) auto
    moreover from this have "p \<in> set parts"
      by simp
    then have "p \<noteq> []"
      by (simp add: parts_def)
    ultimately show ?thesis
      by simp
  qed
  have empty_K: "parts = []" if "sort_key b64_num (filter is_b64_key (map fst r)) = []"
    using that by (simp add: parts_def V_def K_def)
  have empty_V: "parts = []" if "V = []"
    using that by (simp add: parts_def)
  show ?thesis
    using ne empty_K empty_V
    by (auto simp: reconstruct_def Let_def srt sp add_image_prefix_def b64_keys_own_entries
        K_def [symmetric] V_def [symmetric])
qed


text \<open>
  Claim C4, as stated, fails: the result is not the concatenation of the surviving
  chunks. The second pass trims every chunk, so the only chunk \<open>" A"\<close> gives
  \<open>data:image/png;base64,A\<close> and not \<open>data:image/png;base64, A\<close>.
\<close>

theorem reconstructBase64_counterexample:
  "reconstructBase64 (Some [(''HSC_BASE64_0'', JStr '' A'')]) = Some ''data:image/png;base64,A''
   \<and> spec_reconstructBase64 (Some [(''HSC_BASE64_0'', JStr '' A'')])
       = Some ''data:image/png;base64, A''"
  by (simp add: reconstructBase64_def reconstruct_def spec_reconstructBase64_def is_b64_key_def
      b64_keys_own_entries
      get_prop_def truthy_def ToString_def second_pass_def add_image_prefix_def trim_def
      is_space_def is_digit_def MAX_SAFE_SIZE_def MAX_CHUNKS_def MAX_CHUNK_SIZE_def Let_def)

text \<open>
  Claim C4, amended. \<open>reconstructBase64\<close> runs the reconstruction with the limits
  50 MiB, 200 and 500 KiB, and gives \<open>null\<close> for a missing record. For any limits:
  the keys \<open>K\<close> that are looked at are field names of the form \<open>HSC_BASE64_\<close> followed by
  one or more digits, at most \<open>maxChunks\<close> of them, the first ones in ascending order
  of the number value of the suffix, whatever the order in which the record declares
  them, keys of equal number in declaration order; the number of the key
  \<open>HSC_BASE64_\<close> followed by the digits \<open>ds\<close> is the number value of the decimal numeral
  \<open>ds\<close>, which is the integer it denotes when that is below \<open>2^53\<close> (suffix 9 stands
  before suffix 10); a chunk is a candidate when its value is truthy
  and its string form has at most \<open>maxChunk\<close> characters; the accepted keys \<open>V\<close> are
  the longest initial run of the candidates whose lengths add up to at most
  \<open>maxSafe\<close>; the result is \<open>null\<close> when no accepted chunk is left non-empty by
  trimming (in particular when no key is a candidate), and otherwise the
  concatenation, in that order, of the trimmed non-empty accepted chunks, with
  \<open>data:image/png;base64,\<close> in front exactly when it does not start with
  \<open>data:image\<close>.
\<close>

theorem reconstructBase64_amended:
  fixes r :: row and maxSafe maxChunks maxChunk :: nat
  defines "K \<equiv> take maxChunks (sort_key b64_num (filter is_b64_key (map fst r)))"
  defines "ok \<equiv> \<lambda>k. truthy (get_prop r k) \<and> length (ToString (get_prop r k)) \<le> maxChunk"
  defines "len \<equiv> \<lambda>k. length (ToString (get_prop r k))"
  defines "V \<equiv> first_pass maxSafe maxChunk r 0 K"
  defines "parts \<equiv> filter (\<lambda>p. p \<noteq> []) (map (\<lambda>k. trim (ToString (get_prop r k))) V)"
  shows
    "reconstructBase64 row = reconstruct (50 * 1024 * 1024) 200 (500 * 1024) row
     \<and> reconstruct maxSafe maxChunks maxChunk None = None
     \<and> set K \<subseteq> {k \<in> fst ` set r. is_b64_key k} \<and> length K \<le> maxChunks
     \<and> sorted (map b64_num K)
     \<and> (\<forall>k. is_b64_key k \<longleftrightarrow>
           (\<exists>ds. k = ''HSC_BASE64_'' @ ds \<and> ds \<noteq> [] \<and> list_all is_digit ds))
     \<and> (\<forall>ds. b64_num (''HSC_BASE64_'' @ ds) = to_double (digits_value ds)
           \<and> (digits_value ds < 2 ^ 53 \<longrightarrow>
                 b64_num (''HSC_BASE64_'' @ ds) = enat (digits_value ds)))
     \<and> digits_value [] = 0
     \<and> (\<forall>ds c. digits_value (ds @ [c]) = 10 * digits_value ds + ((of_char c :: nat) - 48))
     \<and> (\<forall>i j. i < j \<longrightarrow> j < length K \<longrightarrow> b64_num (K ! i) \<le> b64_num (K ! j))
     \<and> (\<forall>n. filter (\<lambda>k. b64_num k = n) (sort_key b64_num (filter is_b64_key (map fst r)))
              = filter (\<lambda>k. is_b64_key k \<and> b64_num k = n) (map fst r))
     \<and> (\<exists>n\<le>length (filter ok K).
           V = take n (filter ok K)
           \<and> sum_list (map len V) \<le> maxSafe
           \<and> (n < length (filter ok K) \<longrightarrow>
                 sum_list (map len (take (Suc n) (filter ok K))) > maxSafe))
     \<and> ((\<forall>k\<in>set K. \<not> ok k) \<longrightarrow> reconstruct maxSafe maxChunks maxChunk (Some r) = None)
     \<and> reconstruct maxSafe maxChunks maxChunk (Some r) =
         (if parts = [] then None
          else Some (if startsWith (concat parts) ''data:image'' then concat parts
                     else ''data:image/png;base64,'' @ concat parts))"
proof -
  have 1: "reconstructBase64 row = reconstruct (50 * 1024 * 1024) 200 (500 * 1024) row"
    by (simp add: reconstructBase64_def MAX_SAFE_SIZE_def MAX_CHUNKS_def MAX_CHUNK_SIZE_def)
  have 2: "reconstruct maxSafe maxChunks maxChunk None = None"
    by (simp add: reconstruct_def)
  have 3: "set K \<subseteq> {k \<in> fst ` set r. is_b64_key k}"
    unfolding K_def using set_take_subset [of maxChunks "sort_key b64_num (filter is_b64_key (map fst r))"]
    by auto
  have 4: "length K \<le> maxChunks"
    by (simp add: K_def)
  have 5: "sorted (map b64_num K)"
    unfolding K_def take_map [symmetric] by (intro sorted_wrt_take sorted_sort_key)
  have 6: "is_b64_key k \<longleftrightarrow> (\<exists>ds. k = ''HSC_BASE64_'' @ ds \<and> ds \<noteq> [] \<and> list_all is_digit ds)" for k
  proof
    assume k: "is_b64_key k"
    then have "startsWith k ''HSC_BASE64_''"
      by (simp add: is_b64_key_def)
    then have "k = ''HSC_BASE64_'' @ drop 11 k"
      by (auto elim!: startsWith.elims)
    with k show "\<exists>ds. k = ''HSC_BASE64_'' @ ds \<and> ds \<noteq> [] \<and> list_all is_digit ds"
      unfolding is_b64_key_def by blast
  next
    assume "\<exists>ds. k = ''HSC_BASE64_'' @ ds \<and> ds \<noteq> [] \<and> list_all is_digit ds"
    then show "is_b64_key k"
      by (auto simp: is_b64_key_def)
  qed
  have 7: "\<exists>n\<le>length (filter ok K).
           V = take n (filter ok K)
           \<and> sum_list (map len V) \<le> maxSafe
           \<and> (n < length (filter ok K) \<longrightarrow>
                 sum_list (map len (take (Suc n) (filter ok K))) > maxSafe)"
    using first_pass_prefix [where t = 0 and ms = maxSafe and mc = maxChunk and r = r and ks = K]
    unfolding V_def ok_def len_def by auto
  have 9: "reconstruct maxSafe maxChunks maxChunk (Some r) =
         (if parts = [] then None
          else Some (if startsWith (concat parts) ''data:image'' then concat parts
                     else ''data:image/png;base64,'' @ concat parts))"
    unfolding parts_def V_def K_def by (rule reconstruct_Some)
  have 8: "reconstruct maxSafe maxChunks maxChunk (Some r) = None" if "\<forall>k\<in>set K. \<not> ok k"
  proof -
    from that have "filter ok K = []"
      by (simp add: filter_empty_conv)
    with 7 have "V = []"
      by auto
    then have "parts = []"
      by (simp add: parts_def)
    with 9 show ?thesis
      by simp
  qed
  have 10: "b64_num (''HSC_BASE64_'' @ ds) = to_double (digits_value ds)
           \<and> (digits_value ds < 2 ^ 53 \<longrightarrow>
                 b64_num (''HSC_BASE64_'' @ ds) = enat (digits_value ds))" for ds
    by (simp add: b64_num_def parseInt_digits_def to_double_def)
  have 11: "digits_value [] = 0"
    by (simp add: digits_value_def)
  have 12: "b64_num (K ! i) \<le> b64_num (K ! j)" if "i < j" and "j < length K" for i j
    using 5 that by (simp add: sorted_map sorted_wrt_iff_nth_less)
  have 13: "filter (\<lambda>k. b64_num k = n) (sort_key b64_num (filter is_b64_key (map fst r)))
              = filter (\<lambda>k. is_b64_key k \<and> b64_num k = n) (map fst r)" for n
    by (simp add: sort_key_stable conj_commute)
  from 1 2 3 4 5 6 10 11 digits_value_snoc 12 13 7 8 9 show ?thesis
    by blast
qed

theorem reconstructBase64_amended_witness:
  "take 5 (sort_key b64_num (filter is_b64_key
          (map fst [(''HSC_BASE64_0'', JStr ''AAAA''), (''Subject'', JStr ''Maths'')])))
       = [''HSC_BASE64_0'']
   \<and> 3 < length (ToString (get_prop [(''HSC_BASE64_0'', JStr ''AAAA''),
                (''Subject'', JStr ''Maths'')] ''HSC_BASE64_0''))
   \<and> reconstruct 10 5 3 (Some [(''HSC_BASE64_0'', JStr ''AAAA''), (''Subject'', JStr ''Maths'')])
       = None
   \<and> digits_value ''10'' < 2 ^ 53
   \<and> b64_num ''HSC_BASE64_10'' = enat 10
   \<and> b64_num ''HSC_BASE64_9'' = enat 9
   \<and> reconstructBase64 (Some [(''HSC_BASE64_10'', JStr ''D''), (''HSC_BASE64_9'', JStr ''A''),
          (''HSC_BASE64_0'', JStr ''B''), (''HSC_BASE64_x'', JStr ''Z''),
          (''HSC_BASE64_1'', JStr ''C'')])
       = Some ''data:image/png;base64,BCAD''"
  (is "take 5 (sort_key b64_num (filter is_b64_key (map fst ?R1))) = _ \<and> _ \<and> _ \<and> _ \<and> _ \<and> _
       \<and> reconstructBase64 (Some ?R2) = _")
proof -
  have K1: "take 5 (sort_key b64_num (filter is_b64_key (map fst ?R1))) = [''HSC_BASE64_0'']"
    by (simp add: is_b64_key_def is_digit_def)
  have h: "\<forall>k\<in>set (take 5 (sort_key b64_num (filter is_b64_key (map fst ?R1)))).
       \<not> (truthy (get_prop ?R1 k) \<and> length (ToString (get_prop ?R1 k)) \<le> 3)"
    unfolding K1 by (simp add: get_prop_def ToString_def)
  note a = reconstructBase64_amended [where r = ?R1 and maxSafe = 10 and maxChunks = 5
      and maxChunk = 3]
  from a [THEN conjunct2, THEN conjunct2, THEN conjunct2, THEN conjunct2, THEN conjunct2,
      THEN conjunct2, THEN conjunct2, THEN conjunct2, THEN conjunct2, THEN conjunct2,
      THEN conjunct2, THEN conjunct2, THEN conjunct1, THEN mp, OF h]
  have 1: "reconstruct 10 5 3 (Some ?R1) = None" .
  have d: "digits_value ''10'' = 10" "digits_value ''9'' = 9" "digits_value ''0'' = 0"
    "digits_value ''1'' = 1"
    by (simp_all add: digits_value_def)
  have d10: "digits_value ''10'' < 2 ^ 53" "digits_value ''9'' < 2 ^ 53"
    "digits_value ''0'' < 2 ^ 53" "digits_value ''1'' < 2 ^ 53"
    by (simp_all add: d)
  note c = a [THEN conjunct2, THEN conjunct2, THEN conjunct2, THEN conjunct2, THEN conjunct2,
      THEN conjunct2, THEN conjunct1, THEN spec, THEN conjunct2, THEN mp]
  have n: "b64_num ''HSC_BASE64_10'' = enat 10" "b64_num ''HSC_BASE64_9'' = enat 9"
    "b64_num ''HSC_BASE64_0'' = enat 0" "b64_num ''HSC_BASE64_1'' = enat 1"
    using c [OF d10(1)] c [OF d10(2)] c [OF d10(3)] c [OF d10(4)]
    by (simp_all add: d)
  have K2: "take 200 (sort_key b64_num (filter is_b64_key (map fst ?R2)))
      = [''HSC_BASE64_0'', ''HSC_BASE64_1'', ''HSC_BASE64_9'', ''HSC_BASE64_10'']"
    by (simp add: is_b64_key_def is_digit_def n)
  have V2: "first_pass (50 * 1024 * 1024) (500 * 1024) ?R2 0
      [''HSC_BASE64_0'', ''HSC_BASE64_1'', ''HSC_BASE64_9'', ''HSC_BASE64_10'']
      = [''HSC_BASE64_0'', ''HSC_BASE64_1'', ''HSC_BASE64_9'', ''HSC_BASE64_10'']"
    by (simp add: get_prop_def truthy_def ToString_def Let_def)
  note b = reconstructBase64_amended [where r = ?R2 and row = "Some ?R2"
      and maxSafe = "50 * 1024 * 1024" and maxChunks = 200 and maxChunk = "500 * 1024"]
  from b have "reconstructBase64 (Some ?R2) = Some ''data:image/png;base64,BCAD''"
    unfolding K2 V2
    by (simp add: get_prop_def ToString_def trim_def is_space_def)
  moreover have "3 < length (ToString (get_prop ?R1 ''HSC_BASE64_0''))"
    by (simp add: get_prop_def ToString_def)
  ultimately show ?thesis
    using K1 1 d10(1) n(1,2) by simp
qed

subsection \<open>Header normalization (loadAndParse)\<close>

text \<open>The listing order is a rearrangement of the properties.\<close>

lemma mset_own_entries: "mset (own_entries obj) = mset obj"
  by (simp add: own_entries_def)

lemma distinct_own_entries:
  "distinct (map fst obj) \<Longrightarrow> distinct (map fst (own_entries obj))"
  using mset_own_entries [of obj, THEN arg_cong, of "image_mset fst"]
  by (metis mset_map mset_eq_imp_distinct_iff)

lemma map_of_own_entries:
  assumes "distinct (map fst obj)"
  shows "map_of (own_entries obj) = map_of obj"
proof -
  have "set (own_entries obj) = set obj"
    using mset_own_entries [of obj] by (rule mset_eq_setD)
  with assms distinct_own_entries [OF assms] show ?thesis
    by (simp add: map_of_inject_set)
qed

lemma own_entries_plain:
  "\<forall>kv\<in>set obj. \<not> is_array_index (fst kv) \<Longrightarrow> own_entries obj = obj"
  by (simp add: own_entries_def filter_empty_conv)

text \<open>
  A list in listing order is left as it is, and overwriting values in place does not
  change the listing order.
\<close>

lemma own_entries_idem: "own_entries (own_entries obj) = own_entries obj"
proof -
  let ?I = "\<lambda>kv. is_array_index (fst kv)"
  let ?f = "\<lambda>kv. digits_value (fst kv)"
  let ?A = "sort_key ?f (filter ?I obj)"
  let ?B = "filter (\<lambda>kv. \<not> ?I kv) obj"
  have A: "filter ?I ?A = ?A" "filter (\<lambda>kv. \<not> ?I kv) ?A = []"
    by (simp_all add: filter_empty_conv filter_id_conv)
  have B: "filter ?I ?B = []" "filter (\<lambda>kv. \<not> ?I kv) ?B = ?B"
    by (simp_all add: filter_empty_conv)
  have "sort_key ?f ?A = ?A"
    by (rule sort_key_id_if_sorted) (rule sorted_sort_key)
  with A B show ?thesis
    unfolding own_entries_def [of obj] own_entries_def [of "?A @ ?B"] filter_append
    by (simp only: append_Nil2 append_Nil)
qed

lemma insort_key_overwrite:
  assumes "\<And>x. h (g x) = h x"
  shows "insort_key h (g x) (map g ys) = map g (insort_key h x ys)"
  by (induction ys) (simp_all add: assms)

lemma sort_key_overwrite:
  assumes "\<And>x. h (g x) = h x"
  shows "sort_key h (map g xs) = map g (sort_key h xs)"
  by (induction xs) (simp_all add: insort_key_overwrite [of h g, OF assms])

lemma own_entries_overwrite:
  fixes g :: "string \<times> 'v \<Rightarrow> string \<times> 'v"
  assumes "\<And>kv. fst (g kv) = fst kv"
  shows "own_entries (map g r) = map g (own_entries r)"
  unfolding own_entries_def map_append
  by (simp add: filter_map comp_def assms sort_key_overwrite)

lemma map_of_overwrite:
  "map_of (map (\<lambda>kv. if fst kv = k then (k, v) else kv) xs) x =
     (if x = k \<and> k \<in> fst ` set xs then Some v else map_of xs x)"
  by (induction xs) (fastforce simp: image_iff)+

lemma map_of_set_prop:
  assumes "distinct (map fst r)"
  shows "map_of (set_prop r k v) = (map_of r)(k \<mapsto> v)"
proof (cases "k \<in> fst ` set r")
  case True
  then show ?thesis
    by (simp add: set_prop_def fun_eq_iff map_of_overwrite)
next
  case False
  then have n: "map_of r k = None"
    by (simp add: map_of_eq_None_iff)
  from False assms have "distinct (map fst (r @ [(k, v)]))"
    by (simp add: image_iff)
  then have "map_of (own_entries (r @ [(k, v)])) = map_of (r @ [(k, v)])"
    by (rule map_of_own_entries)
  also have "\<dots> = (map_of r)(k \<mapsto> v)"
    using n by (auto simp: fun_eq_iff map_add_def split: option.splits)
  finally show ?thesis
    using False by (simp add: set_prop_def)
qed

lemma distinct_set_prop:
  assumes "distinct (map fst r)"
  shows "distinct (map fst (set_prop r k v))"
proof (cases "k \<in> fst ` set r")
  case True
  have "map fst (map (\<lambda>kv. if fst kv = k then (k, v) else kv) r) = map fst r"
    by (induction r) auto
  moreover from True have "set_prop r k v = map (\<lambda>kv. if fst kv = k then (k, v) else kv) r"
    by (simp add: set_prop_def)
  ultimately show ?thesis
    using assms by (simp only:)
next
  case False
  with assms have "distinct (map fst (r @ [(k, v)]))"
    by (simp add: image_iff)
  from distinct_own_entries [OF this] False show ?thesis
    by (simp add: set_prop_def)
qed

lemma set_prop_listed:
  assumes "own_entries r = r"
  shows "own_entries (set_prop r k v) = set_prop r k v"
proof (cases "k \<in> fst ` set r")
  case True
  have "own_entries (map (\<lambda>kv. if fst kv = k then (k, v) else kv) r)
      = map (\<lambda>kv. if fst kv = k then (k, v) else kv) (own_entries r)"
    by (rule own_entries_overwrite) simp
  with True assms show ?thesis
    by (simp add: set_prop_def)
next
  case False
  then show ?thesis
    by (simp add: set_prop_def own_entries_idem)
qed

lemma distinct_normalize_fold: "distinct (map fst (foldl normalize_step [] xs))"
proof (induction xs rule: rev_induct)
  case Nil
  then show ?case by simp
next
  case (snoc kv xs)
  define N where "N = foldl normalize_step [] xs"
  have "foldl normalize_step [] (xs @ [kv]) = normalize_step N kv"
    by (simp add: N_def)
  moreover have d: "distinct (map fst N)"
    using snoc by (simp only: N_def)
  then have "distinct (map fst (normalize_step N kv))"
    using distinct_set_prop [OF d] by (simp add: normalize_step_def Let_def)
  ultimately show ?case
    by (simp only:)
qed

lemma distinct_normalize_row: "distinct (map fst (normalize_row r))"
  unfolding normalize_row_def by (rule distinct_normalize_fold)

text \<open>The normalized row is in the order in which \<open>Object.keys\<close> lists it.\<close>

lemma normalize_fold_listed:
  "own_entries (foldl normalize_step [] xs) = foldl normalize_step [] xs"
proof (induction xs rule: rev_induct)
  case Nil
  then show ?case by (simp add: own_entries_def)
next
  case (snoc kv xs)
  define N where "N = foldl normalize_step [] xs"
  have "foldl normalize_step [] (xs @ [kv]) = normalize_step N kv"
    by (simp add: N_def)
  moreover have l: "own_entries N = N"
    using snoc by (simp only: N_def)
  then have "own_entries (normalize_step N kv) = normalize_step N kv"
    using set_prop_listed [OF l] by (simp add: normalize_step_def Let_def)
  ultimately show ?case
    by (simp only:)
qed

lemma normalize_row_listed: "own_entries (normalize_row r) = normalize_row r"
  unfolding normalize_row_def by (rule normalize_fold_listed)

lemma find_truthy_append:
  "find truthy (vs @ [v]) = (case find truthy vs of Some w \<Rightarrow> Some w
                             | None \<Rightarrow> if truthy v then Some v else None)"
  by (induction vs) auto

lemma find_truthy_Some: "find truthy vs = Some w \<Longrightarrow> truthy w"
  by (induction vs) (auto split: if_splits)

lemma find_truthy_None: "find truthy vs = None \<Longrightarrow> vs \<noteq> [] \<Longrightarrow> \<not> truthy (last vs)"
  by (induction vs) (auto split: if_splits)

lemma normalize_fold_value:
  assumes "c \<notin> set object_prototype_keys"
  shows "map_of (foldl normalize_step [] xs) c =
     (let vs = map snd (filter (\<lambda>kv. normalize_key (fst kv) = c) xs)
      in if vs = [] then None
         else Some (case find truthy vs of Some v \<Rightarrow> v | None \<Rightarrow> last vs))"
proof (induction xs rule: rev_induct)
  case Nil
  then show ?case by simp
next
  case (snoc kv xs)
  define N where "N = foldl normalize_step [] xs"
  let ?vs = "map snd (filter (\<lambda>kv. normalize_key (fst kv) = c) xs)"
  have step: "foldl normalize_step [] (xs @ [kv]) = normalize_step N kv"
    by (simp add: N_def)
  have sp: "map_of (set_prop N k v) = (map_of N)(k \<mapsto> v)" for k v
    unfolding N_def by (rule map_of_set_prop) (rule distinct_normalize_fold)
  note IH = snoc.IH [folded N_def]
  show ?case
    unfolding step
  proof (cases "normalize_key (fst kv) = c")
    case False
    with IH show "map_of (normalize_step N kv) c =
     (let vs = map snd (filter (\<lambda>kv. normalize_key (fst kv) = c) (xs @ [kv]))
      in if vs = [] then None
         else Some (case find truthy vs of Some v \<Rightarrow> v | None \<Rightarrow> last vs))"
      by (auto simp: normalize_step_def Let_def sp)
  next
    case True
    show "map_of (normalize_step N kv) c =
     (let vs = map snd (filter (\<lambda>kv. normalize_key (fst kv) = c) (xs @ [kv]))
      in if vs = [] then None
         else Some (case find truthy vs of Some v \<Rightarrow> v | None \<Rightarrow> last vs))"
    proof (cases "?vs = []")
      case vs: True
      with IH have "map_of N c = None"
        by (simp add: Let_def)
      with assms True vs show ?thesis
        by (simp add: normalize_step_def Let_def sp newRow_unset_def)
    next
      case vs: False
      with IH have cur: "map_of N c =
          Some (case find truthy ?vs of Some v \<Rightarrow> v | None \<Rightarrow> last ?vs)"
        by (simp add: Let_def)
      show ?thesis
      proof (cases "find truthy ?vs")
        case None
        from find_truthy_None [OF None vs] cur None
        have "newRow_unset N c"
          by (simp add: newRow_unset_def)
        with True None vs show ?thesis
          by (simp add: normalize_step_def Let_def sp find_truthy_append)
      next
        case (Some w)
        from find_truthy_Some [OF Some] cur Some
        have "\<not> newRow_unset N c"
          by (simp add: newRow_unset_def)
        with True Some vs cur show ?thesis
          by (simp add: normalize_step_def Let_def find_truthy_append)
      qed
    qed
  qed
qed

text \<open>
  What the normalization keeps. For a canonical name \<open>c\<close> that is not the name of a
  property inherited from \<open>Object.prototype\<close>, let \<open>vs\<close> be the values of the raw keys
  that canonicalize to \<open>c\<close>, in the order in which \<open>for ... in\<close> visits them. The
  normalized row has no property \<open>c\<close> when \<open>vs\<close> is empty; otherwise it keeps under
  \<open>c\<close> the first truthy value of \<open>vs\<close>, or the last value of \<open>vs\<close> when none is
  truthy. So the first of these raw keys wins whenever its value is truthy.
\<close>

lemma normalize_row_value:
  assumes "c \<notin> set object_prototype_keys"
  shows "map_of (normalize_row r) c =
     (let vs = map snd (filter (\<lambda>kv. normalize_key (fst kv) = c) (own_entries r))
      in if vs = [] then None
         else Some (case find truthy vs of Some v \<Rightarrow> v | None \<Rightarrow> last vs))"
  unfolding normalize_row_def by (rule normalize_fold_value [OF assms])

lemma normalize_row_first_truthy:
  assumes "c \<notin> set object_prototype_keys"
    and "map snd (filter (\<lambda>kv. normalize_key (fst kv) = c) (own_entries r)) = v # vs"
    and "truthy v"
  shows "get_prop (normalize_row r) c = v"
  using assms(2,3) by (simp add: get_prop_def normalize_row_value [OF assms(1)])

text \<open>
  Claim C8 fails in the code. The row has the two headers \<open>Content Area\<close> and \<open>QPC\<close>,
  in this order from left to right, which both canonicalize to
  \<open>Question Per Content\<close>; the first has the empty cell that \<open>defval: ""\<close> gives, the
  second the value \<open>Algebra\<close>. The claim keeps the value of the first key, the empty
  string, and ignores the second. The code keeps \<open>Algebra\<close>: the guard
  \<open>if (!newRow[normalizedKey])\<close> tests the stored value for truthiness and not the
  property for presence, so the later duplicate overwrites the empty value, against
  the comment "Only set if not already set (to avoid overwriting if both exist)".
\<close>

theorem normalize_row_overwrites_empty:
  "normalize_key ''Content Area'' = ''Question Per Content''
   \<and> normalize_key ''QPC'' = ''Question Per Content''
   \<and> normalize_row [(''Content Area'', JStr []), (''QPC'', JStr ''Algebra'')]
       = [(''Question Per Content'', JStr ''Algebra'')]
   \<and> get_prop (normalize_row [(''Content Area'', JStr []), (''QPC'', JStr ''Algebra'')])
        ''Question Per Content'' \<noteq> JStr []"
proof -
  have k: "normalize_key ''Content Area'' = ''Question Per Content''"
    "normalize_key ''QPC'' = ''Question Per Content''"
    by (simp_all add: normalize_key_def trim_def is_space_def Let_def)
  have i: "\<not> is_array_index ''Content Area''" "\<not> is_array_index ''QPC''"
    "\<not> is_array_index ''Question Per Content''"
    by (simp_all add: is_array_index_def is_digit_def)
  have o: "own_entries [(''Content Area'', JStr []), (''QPC'', JStr ''Algebra'')]
      = [(''Content Area'', JStr []), (''QPC'', JStr ''Algebra'')]"
    by (rule own_entries_plain) (simp add: i)
  have n: "normalize_row [(''Content Area'', JStr []), (''QPC'', JStr ''Algebra'')]
       = [(''Question Per Content'', JStr ''Algebra'')]"
    by (simp add: normalize_row_def o normalize_step_def k newRow_unset_def
        object_prototype_keys_def truthy_def set_prop_def own_entries_def i Let_def)
  from k n show ?thesis
    by (simp add: get_prop_def)
qed

text \<open>
  The loop visits the raw keys in the order of \<open>for ... in\<close>, which is the order of
  the columns except for headers that are array indices: a header such as \<open>2024\<close> is
  visited before every other header, also before a header \<open>2024\<close> with a space
  after it that stands to its left and has the same canonical name.
\<close>

lemma normalize_row_index_header:
  "normalize_row [(''2024 '', JStr ''left''), (''2024'', JStr ''right'')]
     = [(''2024'', JStr ''right'')]"
proof -
  have i: "is_array_index ''2024''" "\<not> is_array_index ''2024 ''"
    by (simp_all add: is_array_index_def is_digit_def digits_value_def)
  have k: "normalize_key ''2024 '' = ''2024''" "normalize_key ''2024'' = ''2024''"
    by (simp_all add: normalize_key_def trim_def is_space_def Let_def)
  have o: "own_entries [(''2024 '', JStr ''left''), (''2024'', JStr ''right'')]
      = [(''2024'', JStr ''right''), (''2024 '', JStr ''left'')]"
    by (simp add: own_entries_def i)
  show ?thesis
    by (simp add: normalize_row_def o normalize_step_def k newRow_unset_def
        object_prototype_keys_def truthy_def set_prop_def own_entries_def i Let_def)
qed

subsection \<open>Row validity and coercion (processData)\<close>

lemma digit_char_zero: "n < 10 \<Longrightarrow> digit_char n = CHR ''0'' \<Longrightarrow> n = 0"
proof -
  assume n: "n < 10" and e: "digit_char n = CHR ''0''"
  from e have "(of_char (digit_char n) :: nat) = of_char CHR ''0''"
    by simp
  with n show "n = 0"
    by (simp add: digit_char_def)
qed

lemma nat_digits_nonzero: "0 < n \<Longrightarrow> \<exists>c\<in>set (nat_digits n). c \<noteq> CHR ''0''"
proof (induction n rule: nat_digits.induct)
  case (1 n)
  show ?case
  proof (cases "n < 10")
    case True
    with "1.prems" digit_char_zero [of n] show ?thesis
      by (subst nat_digits.simps) auto
  next
    case False
    then have "0 < n div 10"
      by simp
    with "1.IH" False obtain c where "c \<in> set (nat_digits (n div 10))" and "c \<noteq> CHR ''0''"
      by blast
    with False show ?thesis
      by (subst nat_digits.simps) auto
  qed
qed

lemma strip_zeros_nonempty:
  "\<exists>c\<in>set ds. c \<noteq> CHR ''0'' \<Longrightarrow> rev (dropWhile (\<lambda>c. c = CHR ''0'') (rev ds)) \<noteq> []"
  by (simp add: dropWhile_eq_Nil_conv)

lemma num_to_string_nonempty: "num_to_string x \<noteq> []"
proof (cases x)
  case (NumDec m e)
  show ?thesis
  proof (cases "m = 0")
    case True
    with NumDec show ?thesis by (simp add: num_to_string_def)
  next
    case False
    define ds where "ds = nat_digits (nat \<bar>m\<bar>)"
    define s where "s = rev (dropWhile (\<lambda>c. c = CHR ''0'') (rev ds))"
    from False have "0 < nat \<bar>m\<bar>"
      by simp
    from strip_zeros_nonempty [OF nat_digits_nonzero [OF this]]
    have s: "s \<noteq> []"
      by (simp add: s_def ds_def)
    have "num_to_string (NumDec m e) \<noteq> []"
      unfolding num_to_string_def Let_def jsnum.case
      unfolding ds_def [symmetric] s_def [symmetric]
      using False s by simp
    with NumDec show ?thesis
      by simp
  qed
qed (simp_all add: num_to_string_def)

lemma ToString_truthy: "truthy v \<Longrightarrow> ToString v \<noteq> []"
  by (cases v) (simp_all add: truthy_def ToString_def num_to_string_nonempty)

lemma coerce_year_nonempty:
  assumes "truthy v"
  shows "coerce_year v \<noteq> YearStr [] \<and> coerce_year v \<noteq> YearNum neg 0"
  using ToString_truthy [OF assms]
  by (auto simp: coerce_year_def split: option.splits)

lemma row_valid_iff:
  "row_valid r \<longleftrightarrow>
     truthy (get_prop r ''Subject'') \<and> truthy (get_prop r ''Year'')
     \<and> truthy (get_prop r ''Question (Item)'')
     \<and> \<not> startsWith (toLowerCase (trim (ToString (get_prop r ''Question (Item)'')))) ''question''"
  by (auto simp: row_valid_def Let_def)

text \<open>
  The coerced rows. The records of \<open>processData\<close> are the coerced rows, in input order,
  of the raw rows that pass the filter; the filter is applied to the raw values, before
  the coercion. A raw row passes exactly when its subject, year and item label are
  truthy and its item label, as a string, trimmed and lower-cased, does not start with
  \<open>question\<close>. The item label of a record is the string form of the raw one and is
  not empty, its year is a non-zero number or a non-empty string, and its subject is
  the trimmed string form of a raw subject that is not empty.
\<close>

lemma processData_records:
  "raw (processData rs) = map coerce_row (filter row_valid rs)
   \<and> totalRows (processData rs) = length rs
   \<and> validRows (processData rs) = length (filter row_valid rs)
   \<and> (\<forall>out\<in>set (raw (processData rs)).
          \<exists>r\<in>set rs. row_valid r \<and> out = coerce_row r
            \<and> Subject out = trim (ToString (get_prop r ''Subject''))
            \<and> ToString (get_prop r ''Subject'') \<noteq> []
            \<and> Question out = ToString (get_prop r ''Question (Item)'')
            \<and> Question out \<noteq> []
            \<and> Year out \<noteq> YearStr [] \<and> (\<forall>neg. Year out \<noteq> YearNum neg 0))"
proof -
  have 1: "raw (processData rs) = map coerce_row (filter row_valid rs)"
    by (simp add: processData_def Let_def)
  have 2: "totalRows (processData rs) = length rs"
    by (simp add: processData_def Let_def)
  have 3: "validRows (processData rs) = length (filter row_valid rs)"
    by (simp add: processData_def Let_def)
  have 5: "\<exists>r\<in>set rs. row_valid r \<and> out = coerce_row r
            \<and> Subject out = trim (ToString (get_prop r ''Subject''))
            \<and> ToString (get_prop r ''Subject'') \<noteq> []
            \<and> Question out = ToString (get_prop r ''Question (Item)'')
            \<and> Question out \<noteq> []
            \<and> Year out \<noteq> YearStr [] \<and> (\<forall>neg. Year out \<noteq> YearNum neg 0)"
    if "out \<in> set (raw (processData rs))" for out
  proof -
    from that obtain r where r: "r \<in> set rs" "row_valid r" "out = coerce_row r"
      unfolding 1 by auto
    from r(2) have t: "truthy (get_prop r ''Subject'')" "truthy (get_prop r ''Year'')"
      "truthy (get_prop r ''Question (Item)'')"
      by (simp_all add: row_valid_iff)
    have "Subject out = trim (ToString (get_prop r ''Subject''))"
      "Question out = ToString (get_prop r ''Question (Item)'')"
      "Year out = coerce_year (get_prop r ''Year'')"
      by (simp_all add: r(3) coerce_row_def)
    with r ToString_truthy [OF t(1)] ToString_truthy [OF t(3)] coerce_year_nonempty [OF t(2)]
    show ?thesis
      by auto
  qed
  from 1 2 3 5 show ?thesis
    by blast
qed

text \<open>
  The marks of a record are numbers and never \<open>NaN\<close>: \<open>parseFloat(...) || 0\<close> puts 0
  for \<open>NaN\<close>.
\<close>

lemma or_zero_not_NaN: "or_zero x \<noteq> NaN"
  by (simp add: or_zero_def)

lemma processData_marks:
  assumes "out \<in> set (raw (processData rs))"
  shows "SchoolMean out \<noteq> NaN \<and> StateMean out \<noteq> NaN \<and> MaxMark out \<noteq> NaN"
proof -
  from assms obtain r where "out = coerce_row r"
    by (auto simp: processData_def Let_def)
  then show ?thesis
    by (simp add: coerce_row_def or_zero_not_NaN)
qed

text \<open>
  The rounding at the ends of the range of the doubles: a value of \<open>2^1024\<close> or more
  is \<open>Infinity\<close>, a value below \<open>2^(- 1075)\<close>, half of the least positive double, is
  0.
\<close>

lemma round_half_even_ge: "p div q \<le> round_half_even p q"
  by (simp add: round_half_even_def Let_def)

lemma round_double_overflow:
  assumes "0 < q" and "2 ^ 1024 * q \<le> p"
  shows "round_double p q = Infinity"
proof -
  define d where "d = p div q"
  define fl where "fl = floorlog 2 d"
  from assms have d: "2 ^ 1024 \<le> d"
    unfolding d_def by (simp add: less_eq_div_iff_mult_less_eq mult.commute)
  then have d0: "0 < d"
    by (simp add: order.strict_trans2 [OF _ d])
  from floorlog_bounds [where b = 2 and x = d] d0 have b: "2 ^ (fl - 1) \<le> d" "d < 2 ^ fl"
    by (simp_all add: fl_def)
  from d b(2) have "(2::nat) ^ 1024 < 2 ^ fl"
    by (rule le_less_trans)
  then have fl: "1024 < fl"
    by (rule power_less_imp_less_exp [rotated]) simp
  from assms d0 have qp: "q \<le> p" and p0: "p \<noteq> 0"
    unfolding d_def by (auto simp: div_greater_zero_iff)
  have bin: "binade p q = int fl - 1"
    using qp by (simp add: binade_def fl_def d_def)
  have e: "max (binade p q) (- 1022) - 52 = int (fl - 53)"
    using fl by (simp add: bin)
  define n where "n = round_half_even p (q * 2 ^ (fl - 53))"
  have "p div (q * 2 ^ (fl - 53)) = d div 2 ^ (fl - 53)"
    by (simp add: d_def div_mult2_eq)
  moreover have "2 ^ (fl - 1) div 2 ^ (fl - 53) \<le> d div 2 ^ (fl - 53)"
    using b(1) by (rule div_le_mono)
  moreover have "(2::nat) ^ (fl - 1) div 2 ^ (fl - 53) = 2 ^ 52"
    using fl by (simp add: power_diff_power_eq)
  ultimately have "2 ^ 52 \<le> n"
    using round_half_even_ge [of p "q * 2 ^ (fl - 53)"] by (simp add: n_def)
  then have A: "2 ^ 52 * 2 ^ (fl - 53) \<le> n * 2 ^ (fl - 53)"
    by (rule mult_le_mono1)
  have "52 + (fl - 53) = fl - 1"
    using fl by simp
  then have B: "(2::nat) ^ 52 * 2 ^ (fl - 53) = 2 ^ (fl - 1)"
    by (simp only: power_add [symmetric])
  have "(2::nat) ^ 1024 \<le> 2 ^ (fl - 1)"
    using fl by (intro power_increasing) simp_all
  also note B [symmetric]
  also note A
  finally have big: "2 ^ 1024 \<le> n * 2 ^ (fl - 53)" .
  show ?thesis
    unfolding round_double_def Let_def e
    using p0 big by (simp add: n_def)
qed

lemma round_double_underflow:
  assumes "p * 2 ^ 1075 < q"
  shows "round_double p q = Finite 0"
proof (cases "p = 0")
  case True
  then show ?thesis
    by (simp add: round_double_def)
next
  case False
  then have p0: "0 < p"
    by simp
  have "p * 1 \<le> p * 2 ^ 1075"
    by (rule mult_le_mono2) simp
  with assms have pq: "p < q"
    by simp
  define c where "c = (q + p - 1) div p"
  have "2 ^ 1075 * p \<le> q + p - 1"
    using assms p0 by (simp add: mult.commute)
  with p0 have "2 ^ 1075 \<le> c"
    unfolding c_def by (simp only: less_eq_div_iff_mult_less_eq)
  moreover have "(2::nat) ^ 1021 < 2 ^ 1075"
    by (rule power_strict_increasing) simp_all
  ultimately have "2 ^ 1021 \<le> c - 1"
    by linarith
  then have "Suc 1021 \<le> floorlog 2 (c - 1)"
    by (rule floorlog_ge_SucI) simp
  then have "binade p q \<le> - 1022"
    using pq by (simp add: binade_def c_def)
  then have e: "max (binade p q) (- 1022) - 52 = - 1074"
    by simp
  have h: "2 * (p * 2 ^ 1074) = p * 2 ^ 1075"
    by simp
  have lt: "p * 2 ^ 1074 < q"
    using assms h by linarith
  from assms have n: "\<not> q < p * 2 ^ 1075" "p * 2 ^ 1075 \<noteq> q"
    by linarith+
  have "round_half_even (p * 2 ^ 1074) q = 0"
    unfolding round_half_even_def Let_def mod_less [OF lt] div_less [OF lt] h
    by (simp only: n simp_thms if_False)
  then show ?thesis
    unfolding round_double_def Let_def e using False by simp
qed

text \<open>
  \<open>parseFloat\<close> on some cells: a decimal fraction that is a double, one that is rounded
  (0.1 is the double \<open>3602879701896397 / 2^55\<close>), a literal beyond the largest double
  and one below the least, no number at all, and the text that \<open>String\<close> gives for a
  missing cell.
\<close>

lemma floorlog_2_1: "floorlog 2 (Suc 0) = 1"
  by (simp add: floorlog_def)

lemma floorlog_2_9: "floorlog 2 9 = 4"
proof (rule le_antisym)
  show "floorlog 2 9 \<le> 4"
    by (simp add: floorlog_le_iff)
  have "Suc 3 \<le> floorlog 2 9"
    by (rule floorlog_ge_SucI) simp_all
  then show "4 \<le> floorlog 2 9"
    by simp
qed

lemma binade_examples: "binade 15 10 = 0" "binade (Suc 0) 10 = - 4"
  by (simp_all add: binade_def floorlog_2_1 floorlog_2_9)

lemma round_double_exact: "round_double 15 10 = Finite (3 / 2)"
  by (simp add: round_double_def binade_examples round_half_even_def Let_def)

lemma round_double_rounded:
  "round_double (Suc 0) 10 = Finite (3602879701896397 / 36028797018963968)"
  by (simp add: round_double_def binade_examples round_half_even_def Let_def)

lemma parseFloat_example_exact: "parseFloat_str ''1.5'' = Finite (3 / 2)"
  by (simp add: parseFloat_str_def is_space_def is_digit_def digits_value_def
      round_double_exact Let_def)

lemma parseFloat_example_rounded:
  "parseFloat_str ''0.1'' = Finite (3602879701896397 / 36028797018963968)"
  by (simp add: parseFloat_str_def is_space_def is_digit_def digits_value_def
      round_double_rounded Let_def)

lemma parseFloat_example_overflow: "parseFloat_str ''1e400'' = Infinity"
proof -
  have "parseFloat_str ''1e400'' = round_double (10 ^ 400) 1"
    by (simp add: parseFloat_str_def is_space_def is_digit_def digits_value_def Let_def)
  also have "\<dots> = Infinity"
    by (rule round_double_overflow) simp_all
  finally show ?thesis .
qed

lemma parseFloat_example_underflow: "parseFloat_str ''1e-400'' = Finite 0"
proof -
  have "parseFloat_str ''1e-400'' = round_double 1 (10 ^ 400)"
    by (simp add: parseFloat_str_def is_space_def is_digit_def digits_value_def Let_def)
  also have "\<dots> = Finite 0"
    by (rule round_double_underflow) simp
  finally show ?thesis .
qed

lemma parseFloat_example_NaN:
  "parseFloat_str ''n/a'' = NaN" "parseFloat_str ''undefined'' = NaN" "parseFloat_str [] = NaN"
  by (simp_all add: parseFloat_str_def is_space_def is_digit_def Let_def)

text \<open>
  Claim C9 fails in the code. The row has a subject cell that holds one space, the
  year 2024 and the item label 1. The claim excludes a row whose subject is empty
  after coercion, so that every record has a non-empty subject. The code keeps the
  row: the filter tests the raw value (\<open>if (!subject) return false\<close>), for which the
  string of one space is truthy, and only afterwards the coercion
  \<open>String(row['Subject']).trim()\<close> makes the subject the empty string. The record
  that enters the pipeline has the subject \<open>''\<close>.
\<close>

theorem processData_blank_subject:
  "row_valid [(''Subject'', JStr '' ''), (''Year'', JNum (NumDec 2024 0)),
              (''Question (Item)'', JStr ''1'')]
   \<and> raw (processData [[(''Subject'', JStr '' ''), (''Year'', JNum (NumDec 2024 0)),
                          (''Question (Item)'', JStr ''1'')]])
       = [\<lparr> Subject = [], Year = YearNum False (enat 2024), Question = ''1'',
            MC_ER = [], QPC = [], QPO = [],
            SchoolMean = Finite 0, StateMean = Finite 0, MaxMark = Finite 0,
            rest = [(''Subject'', JStr '' ''), (''Year'', JNum (NumDec 2024 0)),
                    (''Question (Item)'', JStr ''1'')] \<rparr>]
   \<and> validRows (processData [[(''Subject'', JStr '' ''), (''Year'', JNum (NumDec 2024 0)),
                                (''Question (Item)'', JStr ''1'')]]) = 1"
  (is "row_valid ?R \<and> _")
proof -
  have s2024: "ToString (JNum (NumDec 2024 0)) = ''2024''"
    by code_simp
  have l1: "toLowerCase (trim ''1'') = ''1''"
    by code_simp
  have v: "row_valid ?R"
    by (simp add: row_valid_iff get_prop_def truthy_def ToString_def l1)
  have y: "coerce_year (JNum (NumDec 2024 0)) = YearNum False (enat 2024)"
    by (simp add: coerce_year_def s2024 parseInt_str_def is_space_def is_digit_def
        digits_value_def to_double_def Let_def enat_0_iff)
  have t: "trim '' '' = []" "trim [] = []"
    by (simp_all add: trim_def is_space_def)
  have c: "coerce_row ?R =
       \<lparr> Subject = [], Year = YearNum False (enat 2024), Question = ''1'',
            MC_ER = [], QPC = [], QPO = [],
            SchoolMean = Finite 0, StateMean = Finite 0, MaxMark = Finite 0,
            rest = ?R \<rparr>"
    by (simp add: coerce_row_def get_prop_def ToString_def y t or_empty_def truthy_def
        or_zero_def parseFloat_example_NaN)
  from v c show ?thesis
    by (simp add: processData_def Let_def)
qed

text \<open>
  A year cell and an item label cell that hold one space pass the filter as well, and
  stay as they are: the year and the item label of the record are blank.
\<close>

lemma processData_blank_year_label:
  "map (\<lambda>out. (Subject out, Year out, Question out))
     (raw (processData [[(''Subject'', JStr ''Maths''), (''Year'', JStr '' ''),
                         (''Question (Item)'', JStr '' '')]]))
   = [(''Maths'', YearStr '' '', '' '')]"
  (is "map _ (raw (processData [?R])) = _")
proof -
  have t: "trim '' '' = []" "trim ''Maths'' = ''Maths''"
    by (simp_all add: trim_def is_space_def)
  have v: "row_valid ?R"
    by (simp add: row_valid_iff get_prop_def truthy_def ToString_def t toLowerCase_def)
  have y: "coerce_year (JStr '' '') = YearStr '' ''"
    by (simp add: coerce_year_def ToString_def parseInt_str_def is_space_def Let_def)
  show ?thesis
    by (simp add: processData_def Let_def v coerce_row_def get_prop_def ToString_def y t)
qed

subsection \<open>Outlier selection (generateTopBottomMetadata, createAllCharts)\<close>

lemma js_insert_insort_key_on:
  fixes f :: "'a \<Rightarrow> 'k::linorder"
  assumes "\<And>b. b \<in> set ys \<Longrightarrow> (cmp x b > 0) = (f x > f b)"
  shows "js_insert cmp x ys = insort_key f x ys"
  using assms
proof (induction ys)
  case Nil
  then show ?case by simp
next
  case (Cons y ys)
  have "(cmp x y > 0) = (\<not> f x \<le> f y)"
    by (simp add: Cons.prems not_le)
  moreover have "js_insert cmp x ys = insort_key f x ys"
    by (rule Cons.IH) (simp add: Cons.prems)
  ultimately show ?case by simp
qed

lemma js_sort_sort_key_on:
  fixes f :: "'a \<Rightarrow> 'k::linorder"
  assumes "\<And>a b. a \<in> set xs \<Longrightarrow> b \<in> set xs \<Longrightarrow> (cmp a b > 0) = (f a > f b)"
  shows "js_sort cmp xs = sort_key f xs"
  using assms
proof (induction xs)
  case Nil
  then show ?case by simp
next
  case (Cons x xs)
  have "js_sort cmp xs = sort_key f xs"
    by (rule Cons.IH) (simp add: Cons.prems)
  moreover have "js_insert cmp x (sort_key f xs) = insort_key f x (sort_key f xs)"
    by (rule js_insert_insort_key_on) (simp add: Cons.prems)
  ultimately show ?case by simp
qed

lemma mean_cmp_desc_key:
  assumes "a \<noteq> NaN" and "b \<noteq> NaN"
  shows "(num_sign (js_sub b a) > 0) = (desc_key a > desc_key b)"
  using assms by (cases a; cases b) (simp_all add: js_sub_def desc_key_def less_prod_def)

lemma num_ge_desc_key:
  assumes "a \<noteq> NaN" and "b \<noteq> NaN"
  shows "num_ge a b = (desc_key a \<le> desc_key b)"
  using assms by (cases a; cases b) (simp_all add: desc_key_def less_eq_prod_def)

lemma desc_key_inj:
  assumes "a \<noteq> NaN" and "b \<noteq> NaN"
  shows "(desc_key a = desc_key b) = (a = b)"
  using assms by (cases a; cases b) (simp_all add: desc_key_def)

lemma withRate_sort_key:
  assumes "\<forall>r\<in>set rows. SchoolMean r \<noteq> NaN"
  shows "withRate rows = sort_key (\<lambda>r. desc_key (SchoolMean (base r))) (map with_rate rows)"
  unfolding withRate_def
proof (rule js_sort_sort_key_on)
  fix a b assume "a \<in> set (map with_rate rows)" and "b \<in> set (map with_rate rows)"
  with assms have "SchoolMean (base a) \<noteq> NaN" and "SchoolMean (base b) \<noteq> NaN"
    by (auto simp: with_rate_def)
  then show "(0 < mean_cmp a b) = (desc_key (SchoolMean (base b)) < desc_key (SchoolMean (base a)))"
    unfolding mean_cmp_def by (rule mean_cmp_desc_key)
qed


text \<open>
  Claim C3. For the records of one subject and year, none of whose school means is
  \<open>NaN\<close> (\<open>processData\<close> replaces \<open>NaN\<close> by 0): every record gets the success rate
  \<open>schoolMean / maxMark * 100\<close>, which is \<open>NaN\<close> or infinite when \<open>maxMark\<close> is 0; the
  rated records are sorted from the largest school mean down, records of equal school
  mean keeping their order; the top list is the first 5 and the bottom list the last 5
  reversed; both have \<open>min 5 n\<close> elements, and for \<open>n \<le> 5\<close> the top list is the whole
  sorted list and the bottom list its reverse; a group gives \<open>min 5 n + min 5 n\<close> detail
  pages, none when it is empty; and for \<open>0 < n < 10\<close> the two lists share a record,
  which stays in both.
\<close>

theorem outlier_selection:
  fixes rows :: "norm_row list"
  defines "n \<equiv> length rows"
  defines "W \<equiv> withRate rows"
  assumes "\<forall>r\<in>set rows. SchoolMean r \<noteq> NaN"
  shows "mset W = mset (map with_rate rows)
       \<and> (\<forall>r. base (with_rate r) = r
              \<and> successRate (with_rate r) = js_mul (js_div (SchoolMean r) (MaxMark r)) (Finite 100))
       \<and> (\<forall>i j. i < j \<longrightarrow> j < length W \<longrightarrow>
              num_ge (SchoolMean (base (W ! i))) (SchoolMean (base (W ! j))))
       \<and> (\<forall>m. filter (\<lambda>r. SchoolMean (base r) = m) W
                = filter (\<lambda>r. SchoolMean (base r) = m) (map with_rate rows))
       \<and> top5 rows = take 5 W \<and> bottom5 rows = rev (drop (n - 5) W)
       \<and> length (top5 rows) = min 5 n \<and> length (bottom5 rows) = min 5 n
       \<and> (n \<le> 5 \<longrightarrow> top5 rows = W \<and> bottom5 rows = rev (top5 rows))
       \<and> length (group_pages subj yr rows) = min 5 n + min 5 n
       \<and> group_pages subj yr [] = []
       \<and> generateTopBottomMetadata [(subj, [(yr, [])])] = []
       \<and> (0 < n \<longrightarrow> n < 10 \<longrightarrow> set (top5 rows) \<inter> set (bottom5 rows) \<noteq> {})"
proof -
  let ?k = "\<lambda>r. desc_key (SchoolMean (base r))"
  have W: "W = sort_key ?k (map with_rate rows)"
    unfolding W_def by (rule withRate_sort_key) (rule assms(3))
  have len: "length W = n"
    by (simp add: W n_def)
  have nn: "SchoolMean (base r) \<noteq> NaN" if "r \<in> set W" for r
    using that assms(3) by (auto simp: W with_rate_def)
  have 1: "mset W = mset (map with_rate rows)"
    by (simp add: W)
  have 2: "base (with_rate r) = r
      \<and> successRate (with_rate r) = js_mul (js_div (SchoolMean r) (MaxMark r)) (Finite 100)" for r
    by (simp add: with_rate_def)
  have srt: "sorted (map ?k W)"
    unfolding W by (rule sorted_sort_key)
  have 3: "num_ge (SchoolMean (base (W ! i))) (SchoolMean (base (W ! j)))"
    if "i < j" and "j < length W" for i j
  proof -
    from that have "?k (W ! i) \<le> ?k (W ! j)"
      using srt by (simp add: sorted_map sorted_wrt_iff_nth_less)
    moreover from that have "W ! i \<in> set W" and "W ! j \<in> set W"
      by simp_all
    ultimately show ?thesis
      by (simp add: num_ge_desc_key nn)
  qed
  have 4: "filter (\<lambda>r. SchoolMean (base r) = m) W
         = filter (\<lambda>r. SchoolMean (base r) = m) (map with_rate rows)" for m
  proof (cases "m = NaN")
    case True
    have "filter (\<lambda>r. SchoolMean (base r) = m) W = []"
      using nn True by (auto simp: filter_empty_conv)
    moreover have "filter (\<lambda>r. SchoolMean (base r) = m) (map with_rate rows) = []"
      using assms(3) True by (auto simp: filter_empty_conv with_rate_def)
    ultimately show ?thesis by simp
  next
    case False
    have "filter (\<lambda>r. SchoolMean (base r) = m) W = filter (\<lambda>r. ?k r = desc_key m) W"
      by (rule filter_cong) (simp_all add: desc_key_inj nn False)
    also have "\<dots> = filter (\<lambda>r. ?k r = desc_key m) (map with_rate rows)"
      unfolding W by (rule sort_key_stable)
    also have "\<dots> = filter (\<lambda>r. SchoolMean (base r) = m) (map with_rate rows)"
      using assms(3) by (intro filter_cong) (auto simp: desc_key_inj False with_rate_def)
    finally show ?thesis .
  qed
  have 5: "top5 rows = take 5 W" "bottom5 rows = rev (drop (n - 5) W)"
    by (simp_all add: top5_def bottom5_def W_def [symmetric] len)
  have 6: "length (top5 rows) = min 5 n" "length (bottom5 rows) = min 5 n"
    by (auto simp: 5 len)
  have 7: "top5 rows = W \<and> bottom5 rows = rev (top5 rows)" if "n \<le> 5"
    using that by (simp add: 5 len)
  have 8: "length (group_pages subj yr rows) = min 5 n + min 5 n"
    by (simp add: group_pages_def 6)
  have 9: "group_pages subj yr [] = []"
    by (simp add: group_pages_def top5_def bottom5_def withRate_def)
  have 10: "generateTopBottomMetadata [(subj, [(yr, [])])] = []"
    by (simp add: generateTopBottomMetadata_def 9)
  have 11: "set (top5 rows) \<inter> set (bottom5 rows) \<noteq> {}" if "0 < n" and "n < 10"
  proof -
    let ?i = "n - 5"
    from that have i: "?i < 5" "?i < n"
      by auto
    then have "W ! ?i \<in> set (take 5 W)"
      by (auto simp: in_set_conv_nth len intro!: exI [of _ ?i])
    moreover from i have "W ! ?i \<in> set (drop ?i W)"
      by (auto simp: in_set_conv_nth len intro!: exI [of _ 0])
    ultimately show ?thesis
      by (auto simp: 5)
  qed
  from 1 2 3 4 5 6 7 8 9 10 11 show ?thesis
    by blast
qed


theorem outlier_selection_witness:
  "NaN \<notin> set (map SchoolMean (map (\<lambda>(q, s, m). \<lparr>Subject = ''Maths'', Year = YearStr ''2024'',
          Question = q, MC_ER = ''MC'', QPC = [], QPO = [], SchoolMean = Finite s,
          StateMean = Finite 0, MaxMark = Finite m, rest = []\<rparr>)
          [(''1'', 3, 10), (''2'', 6, 20), (''3'', 3, 0)]))
   \<and> length (map (\<lambda>(q, s, m). \<lparr>Subject = ''Maths'', Year = YearStr ''2024'', Question = q,
          MC_ER = ''MC'', QPC = [], QPO = [], SchoolMean = Finite s, StateMean = Finite 0,
          MaxMark = Finite m, rest = []\<rparr>) [(''1'', 3, 10), (''2'', 6, 20), (''3'', 3, 0)]) \<le> 5
   \<and> map (\<lambda>r. (Question (base r), successRate r))
        (top5 (map (\<lambda>(q, s, m). \<lparr>Subject = ''Maths'', Year = YearStr ''2024'', Question = q,
          MC_ER = ''MC'', QPC = [], QPO = [], SchoolMean = Finite s, StateMean = Finite 0,
          MaxMark = Finite m, rest = []\<rparr>) [(''1'', 3, 10), (''2'', 6, 20), (''3'', 3, 0)]))
       = [(''2'', Finite 30), (''1'', Finite 30), (''3'', Infinity)]
   \<and> bottom5 (map (\<lambda>(q, s, m). \<lparr>Subject = ''Maths'', Year = YearStr ''2024'', Question = q,
          MC_ER = ''MC'', QPC = [], QPO = [], SchoolMean = Finite s, StateMean = Finite 0,
          MaxMark = Finite m, rest = []\<rparr>) [(''1'', 3, 10), (''2'', 6, 20), (''3'', 3, 0)])
       = rev (top5 (map (\<lambda>(q, s, m). \<lparr>Subject = ''Maths'', Year = YearStr ''2024'', Question = q,
          MC_ER = ''MC'', QPC = [], QPO = [], SchoolMean = Finite s, StateMean = Finite 0,
          MaxMark = Finite m, rest = []\<rparr>) [(''1'', 3, 10), (''2'', 6, 20), (''3'', 3, 0)]))"
  (is "NaN \<notin> set (map SchoolMean ?rows) \<and> _ \<and> _ \<and> _")
proof -
  have h0: "NaN \<notin> set (map SchoolMean ?rows)"
    by simp
  have h: "\<forall>r\<in>set ?rows. SchoolMean r \<noteq> NaN"
    by simp
  have n: "length ?rows \<le> 5"
    by simp
  note a = outlier_selection [OF h, of "''Maths''" "''2024''"]
  from a have t: "top5 ?rows = withRate ?rows" and b: "bottom5 ?rows = rev (top5 ?rows)"
    using n by blast+
  have w: "map (\<lambda>r. (Question (base r), successRate r)) (withRate ?rows)
      = [(''2'', Finite 30), (''1'', Finite 30), (''3'', Infinity)]"
    by (simp add: withRate_def with_rate_def mean_cmp_def js_sub_def signed_inf_def)
  from h0 n t b w show ?thesis
    by simp
qed

subsection \<open>Aggregation by tag (aggregateData)\<close>

lemma map_of_bucket_add:
  "map_of (bucket_add g k r) =
     (map_of g)(k \<mapsto>
       (case map_of g k of
          None \<Rightarrow> \<lparr> b_max = js_add (Finite 0) (MaxMark r),
                     schoolSum = js_add (Finite 0) (SchoolMean r),
                     stateSum = js_add (Finite 0) (StateMean r),
                     b_count = 1, b_label = k \<rparr>
        | Some b \<Rightarrow> b\<lparr> b_max := js_add (b_max b) (MaxMark r),
                       schoolSum := js_add (schoolSum b) (SchoolMean r),
                       stateSum := js_add (stateSum b) (StateMean r),
                       b_count := b_count b + 1 \<rparr>))"
  by (induction g) (auto simp: fun_eq_iff)

lemma keys_bucket_add:
  "map fst (bucket_add g k r) = (if k \<in> fst ` set g then map fst g else map fst g @ [k])"
  by (induction g) (fastforce simp: image_iff)+

lemma distinct_groups: "distinct (map fst (foldl (agg_step tag) [] rows))"
  by (induction rows rule: rev_induct) (simp_all add: agg_step_def Let_def keys_bucket_add)

lemma map_of_groups:
  "map_of (foldl (agg_step tag) [] rows) k =
     (if k \<noteq> [] \<and> k \<notin> set object_prototype_keys \<and> k \<in> (\<lambda>r. trim (tag r)) ` set rows
      then Some \<lparr> b_max = foldl js_add (Finite 0)
                     (map MaxMark (filter (\<lambda>r. trim (tag r) = k) rows)),
                   schoolSum = foldl js_add (Finite 0)
                     (map SchoolMean (filter (\<lambda>r. trim (tag r) = k) rows)),
                   stateSum = foldl js_add (Finite 0)
                     (map StateMean (filter (\<lambda>r. trim (tag r) = k) rows)),
                   b_count = length (filter (\<lambda>r. trim (tag r) = k) rows),
                   b_label = k \<rparr>
      else None)"
proof (induction rows rule: rev_induct)
  case Nil
  then show ?case by simp
next
  case (snoc r rows)
  let ?G = "foldl (agg_step tag) [] rows"
  let ?kr = "trim (tag r)"
  show ?case
  proof (cases "?kr \<noteq> [] \<and> ?kr \<notin> set object_prototype_keys")
    case False
    then have "agg_step tag ?G r = ?G"
      by (auto simp: agg_step_def Let_def)
    with False snoc show ?thesis
      by auto
  next
    case True
    then have step: "agg_step tag ?G r = bucket_add ?G ?kr r"
      by (simp add: agg_step_def Let_def)
    show ?thesis
    proof (cases "k = ?kr")
      case False
      with snoc show ?thesis
        by (auto simp: step map_of_bucket_add)
    next
      case k: True
      show ?thesis
      proof (cases "?kr \<in> (\<lambda>r. trim (tag r)) ` set rows")
        case seen: True
        with True snoc k show ?thesis
          by (simp add: step map_of_bucket_add)
      next
        case new: False
        then have "\<forall>x\<in>set rows. trim (tag x) \<noteq> ?kr"
          by (metis imageI)
        then have "filter (\<lambda>r'. trim (tag r') = ?kr) rows = []"
          by (simp add: filter_empty_conv)
        with True snoc k new show ?thesis
          by (simp add: step map_of_bucket_add)
      qed
    qed
  qed
qed

lemma mset_object_values: "mset (object_values obj) = mset (map snd obj)"
  by (simp add: object_values_def mset_own_entries)

text \<open>
  What \<open>aggregateData\<close> does for the tags that name no inherited property: the output
  has exactly one row for each distinct trimmed tag that is not empty (and is not one
  of the inherited names), the rows are in natural sort order of the tag, and a row
  carries the sum of \<open>Max Mark\<close> and the means of \<open>School Mean\<close> and \<open>State Mean\<close> over
  the records of its tag, each sum being taken from 0 in the order of the records.
\<close>

lemma aggregateData_ordinary_tags:
  fixes tag :: "norm_row \<Rightarrow> string" and rows :: "norm_row list"
  defines "key \<equiv> \<lambda>r. trim (tag r)"
  defines "out \<equiv> aggregateData tag rows"
  shows "a_tag ` set out
           = {k \<in> key ` set rows. k \<noteq> [] \<and> k \<notin> set object_prototype_keys}
       \<and> distinct (map a_tag out)
       \<and> sorted (map (\<lambda>a. naturalSortKey (a_tag a)) out)
       \<and> (\<forall>a\<in>set out.
             a_MaxMark a = foldl js_add (Finite 0)
                 (map MaxMark (filter (\<lambda>r. key r = a_tag a) rows))
           \<and> a_SchoolMean a = js_div
                 (foldl js_add (Finite 0) (map SchoolMean (filter (\<lambda>r. key r = a_tag a) rows)))
                 (Finite (real (length (filter (\<lambda>r. key r = a_tag a) rows))))
           \<and> a_StateMean a = js_div
                 (foldl js_add (Finite 0) (map StateMean (filter (\<lambda>r. key r = a_tag a) rows)))
                 (Finite (real (length (filter (\<lambda>r. key r = a_tag a) rows)))))"
proof -
  let ?G = "foldl (agg_step tag) [] rows"
  let ?K = "{k \<in> key ` set rows. k \<noteq> [] \<and> k \<notin> set object_prototype_keys}"
  let ?B = "\<lambda>k. \<lparr> b_max = foldl js_add (Finite 0) (map MaxMark (filter (\<lambda>r. key r = k) rows)),
                  schoolSum = foldl js_add (Finite 0) (map SchoolMean (filter (\<lambda>r. key r = k) rows)),
                  stateSum = foldl js_add (Finite 0) (map StateMean (filter (\<lambda>r. key r = k) rows)),
                  b_count = length (filter (\<lambda>r. key r = k) rows),
                  b_label = k \<rparr>"
  have mo: "map_of ?G k = (if k \<in> ?K then Some (?B k) else None)" for k
    unfolding key_def by (simp add: map_of_groups)
  have G: "(k, b) \<in> set ?G \<longleftrightarrow> k \<in> ?K \<and> b = ?B k" for k b
  proof
    assume "(k, b) \<in> set ?G"
    then have "map_of ?G k = Some b"
      by (simp add: distinct_groups)
    then show "k \<in> ?K \<and> b = ?B k"
      unfolding mo by (auto split: if_splits)
  next
    assume "k \<in> ?K \<and> b = ?B k"
    then have "map_of ?G k = Some b"
      unfolding mo by simp
    then show "(k, b) \<in> set ?G"
      by (rule map_of_SomeD)
  qed
  have out: "out = sort_key (\<lambda>a. naturalSortKey (a_tag a)) (map finalize (object_values ?G))"
    by (simp add: out_def aggregateData_def Let_def sortQuestionsNaturally_sort_key)
  have ms: "mset out = mset (map (\<lambda>kv. finalize (snd kv)) ?G)"
    using mset_object_values [of ?G, THEN arg_cong, of "image_mset finalize"]
    by (simp add: out multiset.map_comp comp_def)
  then have so: "set out = (\<lambda>kv. finalize (snd kv)) ` set ?G"
    by (metis mset_eq_setD set_map)
  have lab: "a_tag (finalize (snd kv)) = fst kv" if "kv \<in> set ?G" for kv
  proof -
    from that G [of "fst kv" "snd kv"] have "snd kv = ?B (fst kv)"
      by simp
    then have "b_label (snd kv) = fst kv"
      by (metis bucket.select_convs(5))
    then show ?thesis
      by (simp add: finalize_def)
  qed
  have 1: "a_tag ` set out = ?K"
  proof (intro set_eqI iffI)
    fix k assume "k \<in> a_tag ` set out"
    then obtain kv where kv: "kv \<in> set ?G" and "k = a_tag (finalize (snd kv))"
      unfolding so by auto
    with lab have "k = fst kv"
      by simp
    with kv G [of "fst kv" "snd kv"] show "k \<in> ?K"
      by simp
  next
    fix k assume "k \<in> ?K"
    with G [of k "?B k"] have "(k, ?B k) \<in> set ?G"
      by simp
    then have "finalize (?B k) \<in> set out"
      unfolding so by force
    moreover have "a_tag (finalize (?B k)) = k"
      by (simp add: finalize_def)
    ultimately show "k \<in> a_tag ` set out"
      by force
  qed
  have "mset (map a_tag out) = mset (map (\<lambda>kv. a_tag (finalize (snd kv))) ?G)"
    using ms [THEN arg_cong, of "image_mset a_tag"] by (simp add: multiset.map_comp comp_def)
  also have "map (\<lambda>kv. a_tag (finalize (snd kv))) ?G = map fst ?G"
    by (rule map_cong) (simp_all add: lab)
  finally have "distinct (map a_tag out) = distinct (map fst ?G)"
    by (rule mset_eq_imp_distinct_iff)
  then have 2: "distinct (map a_tag out)"
    by (simp add: distinct_groups)
  have 3: "sorted (map (\<lambda>a. naturalSortKey (a_tag a)) out)"
    unfolding out by (rule sorted_sort_key)
  have 4: "a_MaxMark a = foldl js_add (Finite 0)
                 (map MaxMark (filter (\<lambda>r. key r = a_tag a) rows))
           \<and> a_SchoolMean a = js_div
                 (foldl js_add (Finite 0) (map SchoolMean (filter (\<lambda>r. key r = a_tag a) rows)))
                 (Finite (real (length (filter (\<lambda>r. key r = a_tag a) rows))))
           \<and> a_StateMean a = js_div
                 (foldl js_add (Finite 0) (map StateMean (filter (\<lambda>r. key r = a_tag a) rows)))
                 (Finite (real (length (filter (\<lambda>r. key r = a_tag a) rows))))"
    if "a \<in> set out" for a
  proof -
    from that obtain kv where kv: "kv \<in> set ?G" and a: "a = finalize (snd kv)"
      unfolding so by auto
    from kv G [of "fst kv" "snd kv"] have b: "snd kv = ?B (fst kv)"
      by simp
    from lab [OF kv] a have t: "a_tag a = fst kv"
      by simp
    show ?thesis
      unfolding t unfolding a b by (simp add: finalize_def)
  qed
  from 1 2 3 4 show ?thesis
    by blast
qed

text \<open>
  Claim C2 says that every distinct non-empty trimmed tag gets one output row. The code
  keeps its buckets in a plain object and tests \<open>!groups[key]\<close>: for a tag that names a
  property inherited from \<open>Object.prototype\<close>, here \<open>constructor\<close>, the test finds the
  inherited function, no bucket is created, and the record gets no output row.
\<close>

theorem aggregateData_inherited_key:
  "aggregateData QPC
     [\<lparr>Subject = ''Software'', Year = YearStr ''2024'', Question = ''1'', MC_ER = ''MC'',
       QPC = ''constructor'', QPO = [], SchoolMean = Finite 1, StateMean = Finite 1,
       MaxMark = Finite 1, rest = []\<rparr>] = []"
proof -
  have t: "trim ''constructor'' = ''constructor''"
    by (simp add: trim_def is_space_def)
  show ?thesis
    by (simp add: aggregateData_def agg_step_def t object_prototype_keys_def object_values_def
        own_entries_def sortQuestionsNaturally_def Let_def)
qed

end
